theory Spec2Isabelle
  imports Main "HOL-Library.Sublist"
begin

section \<open>Values and objects of gorker.go\<close>

text \<open>
  The dispatcher of gorker.go is a heap of objects reached through pointers: a
  \<^verbatim>\<open>*Dispatcher\<close> owns two channels of closures, a slice of \<^verbatim>\<open>*worker\<close> and a
  cancellation context, and every worker points back at its dispatcher.  The model keeps
  that shape: objects live in a store indexed by addresses, address \<open>0\<close> is the nil
  pointer, and every method is a function from the store to either a fault (a run-time
  panic, or the caller being suspended on a channel or wait group) or a new store.

  Go's \<^verbatim>\<open>int\<close> is taken as the 64-bit two's complement integer of the usual targets;
  arithmetic on it wraps, which \<open>int64\<close> writes out.
\<close>

type_synonym addr = nat

definition int64 :: "int \<Rightarrow> int" where
  "int64 x = (x + 9223372036854775808) mod 18446744073709551616 - 9223372036854775808"

text \<open>
  A job is the caller's \<^verbatim>\<open>func() error\<close>.  The dispatcher never looks inside it; it only
  calls it and forwards what it returns, so a job is represented by a tag that tells jobs
  apart and by the error it returns (\<open>None\<close> for a nil error).
\<close>

datatype job = Job nat "string option"

fun call :: "job \<Rightarrow> string option" where
  "call (Job i r) = r"

text \<open>
  The queues carry values of type \<^verbatim>\<open>func()\<close>: nil, or the closure
  \<^verbatim>\<open>func() { ech <- job() }\<close> built by \<^verbatim>\<open>Add\<close>, which captures the completion channel
  and the job.
\<close>

datatype func = FnNil | FnJob addr job

text \<open>
  A channel has a capacity, the buffered elements in arrival order, and the closed flag
  that \<^verbatim>\<open>range\<close> and receive consult.  \<^verbatim>\<open>make\<close> yields an open, empty channel; gorker.go
  contains no \<^verbatim>\<open>close\<close> statement, so no operation below ever sets the flag.
\<close>

record 'a chan =
  ch_cap :: int
  ch_buf :: "'a list"
  ch_closed :: bool

definition make_chan :: "int \<Rightarrow> 'a chan" where
  "make_chan n = \<lparr>ch_cap = n, ch_buf = [], ch_closed = False\<rparr>"

datatype panic = NilDereference | MakeChanSize | MakeSliceLen | IndexOutOfRange
  | NegativeWaitGroup | SendOnClosedChannel

datatype fault = Panic panic | Blocked

text \<open>
  A send on a closed channel panics.  On an open channel it completes at once when the
  buffer has room; otherwise the sender is suspended.
\<close>

definition has_room :: "'a chan \<Rightarrow> bool" where
  "has_room c = (int (length (ch_buf c)) < ch_cap c)"

definition push :: "'a \<Rightarrow> 'a chan \<Rightarrow> 'a chan" where
  "push x c = c\<lparr>ch_buf := ch_buf c @ [x]\<rparr>"

definition send :: "'a \<Rightarrow> 'a chan \<Rightarrow> fault + 'a chan" where
  "send x c =
     (if ch_closed c then Inl (Panic SendOnClosedChannel)
      else if has_room c then Inr (push x c)
      else Inl Blocked)"

text \<open>
  \<^verbatim>\<open>context.Background()\<close> is never done; \<^verbatim>\<open>context.WithCancel(parent)\<close> is done once its
  own cancel function has been called or its parent is done.  The cancel function is
  identified with the address that names the derived context.
\<close>

datatype "context" = Background | WithCancel addr "context"

fun ctx_done :: "addr set \<Rightarrow> context \<Rightarrow> bool" where
  "ctx_done cs Background = False"
| "ctx_done cs (WithCancel a p) = (a \<in> cs \<or> ctx_done cs p)"

record worker =
  dis :: addr
  kill :: "unit chan"
  w_running :: bool

text \<open>
  The struct \<^verbatim>\<open>Dispatcher\<close>.  The wait group is only ever reached through \<^verbatim>\<open>d.wg\<close>, so the
  record holds its counter; the mutex \<^verbatim>\<open>mu\<close> has no state between two method calls of a
  sequential run and is left out.
\<close>

record Dispatcher =
  running :: bool
  scaling :: bool
  resizing :: bool
  queue :: "func list"
  qin :: addr
  qout :: addr
  wg :: int
  workerCount :: int
  workers :: "addr list"
  ctx :: "context"
  cancel :: "addr option"

text \<open>
  Goroutines started with \<^verbatim>\<open>go\<close>: the loop of a started worker, bound to the context it
  was started with, and the two drains of \<^verbatim>\<open>ScaleBuffer\<close>, each holding the old channel.
\<close>

datatype goroutine = GWorker addr "context" | GDrainIn addr addr | GDrainOut addr addr

record state =
  dispatchers :: "addr \<rightharpoonup> Dispatcher"
  worker_heap :: "addr \<rightharpoonup> worker"
  fchans :: "addr \<rightharpoonup> func chan"
  echans :: "addr \<rightharpoonup> (string option) chan"
  cancelled :: "addr set"
  goroutines :: "goroutine list"
  nxt :: addr
  the_instance :: addr
  once_done :: bool

definition empty_state :: state where
  "empty_state = \<lparr>dispatchers = Map.empty, worker_heap = Map.empty, fchans = Map.empty,
     echans = Map.empty, cancelled = {}, goroutines = [], nxt = 1, the_instance = 0,
     once_done = False\<rparr>"

section \<open>Construction\<close>

text \<open>
  \<^verbatim>\<open>int(math.Min(float64(n*100), bufferSizeLimit))\<close> with \<^verbatim>\<open>bufferSizeLimit = 1000000.0\<close>.
  The product wraps.  Below \<open>-2^53\<close> the conversion to \<^verbatim>\<open>float64\<close> may round to a
  neighbouring integer, which is negative as well; \<^verbatim>\<open>make\<close> panics on every negative size,
  so the model keeps the wrapped product there.
\<close>

definition buffer_size :: "int \<Rightarrow> int" where
  "buffer_size n = min (int64 (n * 100)) 1000000"

definition alloc_fchan :: "state \<Rightarrow> int \<Rightarrow> fault + (addr \<times> state)" where
  "alloc_fchan h sz =
     (if sz < 0 then Inl (Panic MakeChanSize)
      else Inr (nxt h, h\<lparr>fchans := (fchans h)(nxt h \<mapsto> make_chan sz),
                           nxt := Suc (nxt h)\<rparr>))"

text \<open>
  The composite literal of \<^verbatim>\<open>newDispatcher\<close> evaluates its fields in the order written:
  the two channels are made first, the slice of workers last.
  \<^verbatim>\<open>make([]*worker, maxWorker)\<close> panics on a negative length and on a length whose
  eight-byte elements need more than the \<open>2^48\<close> bytes that the runtime of the 64-bit
  targets addresses, that is on more than \<open>2^45 = 35184372088832\<close> elements.  Within
  these limits allocation is taken to succeed: running out of memory is a fatal error of
  the runtime that depends on the machine, not a check of the code.
\<close>

definition newDispatcher :: "state \<Rightarrow> int \<Rightarrow> fault + (addr \<times> state)" where
  "newDispatcher h maxWorker =
     (case alloc_fchan h (buffer_size maxWorker) of
        Inl e \<Rightarrow> Inl e
      | Inr (qi, h1) \<Rightarrow>
          (case alloc_fchan h1 (buffer_size maxWorker) of
             Inl e \<Rightarrow> Inl e
           | Inr (qo, h2) \<Rightarrow>
               if maxWorker < 0 \<or> 35184372088832 < maxWorker then Inl (Panic MakeSliceLen)
               else Inr (nxt h2,
                 h2\<lparr>dispatchers := (dispatchers h2)(nxt h2 \<mapsto>
                       \<lparr>running = False, scaling = False, resizing = False, queue = [],
                        qin = qi, qout = qo, wg = 0, workerCount = maxWorker,
                        workers = replicate (nat maxWorker) 0, ctx = Background,
                        cancel = None\<rparr>),
                    nxt := Suc (nxt h2)\<rparr>)))"

text \<open>\<^verbatim>\<open>&worker{dis: d, kill: make(chan struct{}, 1), running: false}\<close>\<close>

definition new_worker :: "state \<Rightarrow> addr \<Rightarrow> addr \<times> state" where
  "new_worker h d =
     (nxt h, h\<lparr>worker_heap := (worker_heap h)(nxt h \<mapsto>
                    \<lparr>dis = d, kill = make_chan 1, w_running = False\<rparr>),
                nxt := Suc (nxt h)\<rparr>)"

definition set_disp :: "state \<Rightarrow> addr \<Rightarrow> Dispatcher \<Rightarrow> state" where
  "set_disp h d dr = h\<lparr>dispatchers := (dispatchers h)(d \<mapsto> dr)\<rparr>"

text \<open>The loop \<^verbatim>\<open>for i := range dis.workers { dis.workers[i] = &worker{...} }\<close> of \<^verbatim>\<open>New\<close>.\<close>

fun fill_workers :: "state \<Rightarrow> addr \<Rightarrow> nat list \<Rightarrow> fault + state" where
  "fill_workers h d [] = Inr h"
| "fill_workers h d (i # js) =
     (case new_worker h d of
        (w, h1) \<Rightarrow>
          (case dispatchers h1 d of
             None \<Rightarrow> Inl (Panic NilDereference)
           | Some dr \<Rightarrow> fill_workers (set_disp h1 d (dr\<lparr>workers := (workers dr)[i := w]\<rparr>)) d js))"

definition New :: "state \<Rightarrow> int \<Rightarrow> fault + (addr \<times> state)" where
  "New h maxWorker =
     (case newDispatcher h (if maxWorker < 1 then 1 else maxWorker) of
        Inl e \<Rightarrow> Inl e
      | Inr (d, h1) \<Rightarrow>
          (case dispatchers h1 d of
             None \<Rightarrow> Inl (Panic NilDereference)
           | Some dr \<Rightarrow>
               (case fill_workers h1 d [0..<length (workers dr)] of
                  Inl e \<Rightarrow> Inl e
                | Inr h2 \<Rightarrow> Inr (d, h2))))"

section \<open>Workers\<close>

text \<open>\<^verbatim>\<open>worker.start\<close>: set the flag, then spawn the loop bound to \<open>c\<close>.\<close>

definition worker_start :: "state \<Rightarrow> addr \<Rightarrow> context \<Rightarrow> fault + state" where
  "worker_start h w c =
     (case worker_heap h w of
        None \<Rightarrow> Inl (Panic NilDereference)
      | Some wr \<Rightarrow>
          Inr (h\<lparr>worker_heap := (worker_heap h)(w \<mapsto> wr\<lparr>w_running := True\<rparr>),
                 goroutines := goroutines h @ [GWorker w c]\<rparr>))"

text \<open>\<^verbatim>\<open>worker.stop\<close>: send on the kill channel (capacity one), then clear the flag.\<close>

definition worker_stop :: "state \<Rightarrow> addr \<Rightarrow> fault + state" where
  "worker_stop h w =
     (case worker_heap h w of
        None \<Rightarrow> Inl (Panic NilDereference)
      | Some wr \<Rightarrow>
          (case send () (kill wr) of
             Inl e \<Rightarrow> Inl e
           | Inr k \<Rightarrow>
               Inr (h\<lparr>worker_heap := (worker_heap h)(w \<mapsto>
                      wr\<lparr>kill := k, w_running := False\<rparr>)\<rparr>)))"

text \<open>
  Calling a \<^verbatim>\<open>func()\<close> taken from the queue.  The closure of \<^verbatim>\<open>Add\<close> calls the job and
  sends its result on the completion channel.
\<close>

definition invoke :: "state \<Rightarrow> func \<Rightarrow> fault + state" where
  "invoke h f =
     (case f of
        FnNil \<Rightarrow> Inl (Panic NilDereference)
      | FnJob ech j \<Rightarrow>
          (case echans h ech of
             None \<Rightarrow> Inl Blocked
           | Some c \<Rightarrow>
               (case send (call j) c of
                  Inl e \<Rightarrow> Inl e
                | Inr c1 \<Rightarrow> Inr (h\<lparr>echans := (echans h)(ech \<mapsto> c1)\<rparr>))))"

text \<open>\<^verbatim>\<open>sync.WaitGroup.Done\<close> on the dispatcher at \<open>d\<close>: a counter below zero panics.\<close>

definition wg_done :: "state \<Rightarrow> addr \<Rightarrow> fault + state" where
  "wg_done h d =
     (case dispatchers h d of
        None \<Rightarrow> Inl (Panic NilDereference)
      | Some dr \<Rightarrow>
          if wg dr - 1 < 0 then Inl (Panic NegativeWaitGroup)
          else Inr (set_disp h d (dr\<lparr>wg := wg dr - 1\<rparr>)))"

text \<open>
  \<^verbatim>\<open>worker.run\<close>: the deferred \<^verbatim>\<open>w.dis.wg.Done()\<close> evaluates \<^verbatim>\<open>w.dis.wg\<close> first, the job is
  called unless it is nil, and \<^verbatim>\<open>Done\<close> runs when the body has returned.
\<close>

definition run :: "state \<Rightarrow> addr \<Rightarrow> func \<Rightarrow> fault + state" where
  "run h w job =
     (case worker_heap h w of
        None \<Rightarrow> Inl (Panic NilDereference)
      | Some wr \<Rightarrow>
          (case dispatchers h (dis wr) of
             None \<Rightarrow> Inl (Panic NilDereference)
           | Some dr \<Rightarrow>
               if job \<noteq> FnNil
               then (case invoke h job of
                       Inl e \<Rightarrow> Inl e
                     | Inr h1 \<Rightarrow> wg_done h1 (dis wr))
               else wg_done h (dis wr)))"

text \<open>
  The branch \<^verbatim>\<open>case job := <-w.dis.qout: w.run(job)\<close> of the worker's loop: it is enabled
  when the output queue, read through the back pointer at that moment, holds an element
  (or is closed and empty, where the receive yields nil).
\<close>

definition worker_receive :: "state \<Rightarrow> addr \<Rightarrow> fault + state" where
  "worker_receive h w =
     (case worker_heap h w of
        None \<Rightarrow> Inl (Panic NilDereference)
      | Some wr \<Rightarrow>
          (case dispatchers h (dis wr) of
             None \<Rightarrow> Inl (Panic NilDereference)
           | Some dr \<Rightarrow>
               (case fchans h (qout dr) of
                  None \<Rightarrow> Inl Blocked
                | Some c \<Rightarrow>
                    (case ch_buf c of
                       [] \<Rightarrow> if ch_closed c then run h w FnNil else Inl Blocked
                     | job # rest \<Rightarrow>
                         run (h\<lparr>fchans := (fchans h)(qout dr \<mapsto> c\<lparr>ch_buf := rest\<rparr>)\<rparr>) w job))))"

text \<open>
  The two other branches of the loop's \<^verbatim>\<open>select\<close> end the goroutine: a value on the
  worker's kill channel, or the context the loop was started with being done.
\<close>

definition worker_can_exit :: "state \<Rightarrow> goroutine \<Rightarrow> bool" where
  "worker_can_exit h g =
     (case g of
        GWorker w c \<Rightarrow>
          (case worker_heap h w of
             None \<Rightarrow> True
           | Some wr \<Rightarrow>
               ch_buf (kill wr) \<noteq> [] \<or> ch_closed (kill wr) \<or> ctx_done (cancelled h) c)
      | _ \<Rightarrow> False)"

section \<open>Start, Add, Wait, Stop\<close>

text \<open>The loop of \<^verbatim>\<open>StartWithContext\<close> over \<^verbatim>\<open>d.workers\<close>.\<close>

fun start_workers :: "state \<Rightarrow> context \<Rightarrow> addr list \<Rightarrow> fault + state" where
  "start_workers h c [] = Inr h"
| "start_workers h c (w # ws) =
     (case worker_heap h w of
        None \<Rightarrow> Inl (Panic NilDereference)
      | Some wr \<Rightarrow>
          if \<not> w_running wr
          then (case worker_start h w c of
                  Inl e \<Rightarrow> Inl e
                | Inr h1 \<Rightarrow> start_workers h1 c ws)
          else start_workers h c ws)"

definition StartWithContext :: "state \<Rightarrow> addr \<Rightarrow> context \<Rightarrow> fault + state" where
  "StartWithContext h d c =
     (case dispatchers h d of
        None \<Rightarrow> Inl (Panic NilDereference)
      | Some dr \<Rightarrow>
          (let a = nxt h;
               h1 = set_disp (h\<lparr>nxt := Suc a\<rparr>) d (dr\<lparr>ctx := WithCancel a c, cancel := Some a\<rparr>)
           in case start_workers h1 (WithCancel a c) (workers dr) of
                Inl e \<Rightarrow> Inl e
              | Inr h2 \<Rightarrow>
                  (case dispatchers h2 d of
                     None \<Rightarrow> Inl (Panic NilDereference)
                   | Some dr2 \<Rightarrow> Inr (set_disp h2 d (dr2\<lparr>running := True\<rparr>)))))"

definition Start :: "state \<Rightarrow> addr \<Rightarrow> fault + state" where
  "Start h d = StartWithContext h d Background"

text \<open>
  \<^verbatim>\<open>Add\<close>: make the completion channel, count the job, send the closure on \<^verbatim>\<open>d.qin\<close>.
  With a full intake queue the caller stays suspended in the send.
\<close>

definition Add :: "state \<Rightarrow> addr \<Rightarrow> job \<Rightarrow> fault + (addr \<times> state)" where
  "Add h d j =
     (let ech = nxt h;
          h1 = h\<lparr>echans := (echans h)(ech \<mapsto> make_chan 1), nxt := Suc ech\<rparr>
      in case dispatchers h1 d of
           None \<Rightarrow> Inl (Panic NilDereference)
         | Some dr \<Rightarrow>
             (let h2 = set_disp h1 d (dr\<lparr>wg := wg dr + 1\<rparr>)
              in case fchans h2 (qin dr) of
                   None \<Rightarrow> Inl Blocked
                 | Some c \<Rightarrow>
                     (case send (FnJob ech j) c of
                        Inl e \<Rightarrow> Inl e
                      | Inr c1 \<Rightarrow> Inr (ech, h2\<lparr>fchans := (fchans h2)(qin dr \<mapsto> c1)\<rparr>))))"

text \<open>\<^verbatim>\<open>Wait\<close> returns at once on a stopped dispatcher and when nothing is pending.\<close>

definition Wait :: "state \<Rightarrow> addr \<Rightarrow> fault + state" where
  "Wait h d =
     (case dispatchers h d of
        None \<Rightarrow> Inl (Panic NilDereference)
      | Some dr \<Rightarrow> if running dr \<and> wg dr \<noteq> 0 then Inl Blocked else Inr h)"

text \<open>
  \<^verbatim>\<open>Stop\<close>.  The assignment \<^verbatim>\<open>d = New(len(d.workers))\<close> rebinds the method's own copy of
  the receiver pointer: the new dispatcher is the returned value, and the object the
  caller's pointer refers to is written only by \<^verbatim>\<open>d.running = false\<close>.
\<close>

definition Stop :: "state \<Rightarrow> addr \<Rightarrow> bool \<Rightarrow> fault + (addr \<times> state)" where
  "Stop h d immediately =
     (case dispatchers h d of
        None \<Rightarrow> Inl (Panic NilDereference)
      | Some dr \<Rightarrow>
          if \<not> running dr then Inr (d, h)
          else (case (if \<not> immediately then Wait h d else Inr h) of
                  Inl e \<Rightarrow> Inl e
                | Inr h1 \<Rightarrow>
                    (case cancel dr of
                       None \<Rightarrow> Inl (Panic NilDereference)
                     | Some a \<Rightarrow>
                         New (set_disp (h1\<lparr>cancelled := insert a (cancelled h1)\<rparr>) d
                                (dr\<lparr>running := False\<rparr>))
                             (int (length (workers dr))))))"

section \<open>Rescaling\<close>

text \<open>
  \<^verbatim>\<open>ScaleBuffer\<close>: compute the capacity, swap in two new channels, count and spawn the two
  drains, each holding one of the old channels.
\<close>

definition ScaleBuffer :: "state \<Rightarrow> addr \<Rightarrow> int \<Rightarrow> fault + state" where
  "ScaleBuffer h d sz =
     (case dispatchers h d of
        None \<Rightarrow> Inl (Panic NilDereference)
      | Some dr \<Rightarrow>
          (case alloc_fchan h (buffer_size sz) of
             Inl e \<Rightarrow> Inl e
           | Inr (qi, h1) \<Rightarrow>
               (case alloc_fchan h1 (buffer_size sz) of
                  Inl e \<Rightarrow> Inl e
                | Inr (qo, h2) \<Rightarrow>
                    Inr ((set_disp h2 d (dr\<lparr>qin := qi, qout := qo, wg := wg dr + 2\<rparr>))
                           \<lparr>goroutines := goroutines h2 @
                              [GDrainIn d (qin dr), GDrainOut d (qout dr)]\<rparr>))))"

text \<open>
  \<^verbatim>\<open>for job := range old { tmpQueue = append(tmpQueue, job) }\<close>, run while nothing else
  touches the old channel: every buffered element is received; on an empty channel the
  loop ends if the channel is closed and is suspended otherwise.
\<close>

datatype range_result = RangeDone "func list" | RangeBlocked "func list"

fun range_chan :: "func list \<Rightarrow> bool \<Rightarrow> func list \<Rightarrow> range_result" where
  "range_chan [] is_closed tmpQueue = (if is_closed then RangeDone tmpQueue else RangeBlocked tmpQueue)"
| "range_chan (job # rest) is_closed tmpQueue = range_chan rest is_closed (tmpQueue @ [job])"

text \<open>
  The body of a drain goroutine.  When the loop is suspended the goroutine keeps the
  received jobs in its local \<^verbatim>\<open>tmpQueue\<close>; only after the loop does it write
  \<^verbatim>\<open>d.queue\<close> (appending for the old intake queue, prepending for the old output queue)
  and run the deferred \<^verbatim>\<open>d.wg.Done()\<close>.
\<close>

datatype drain_result = DrainDone state | DrainBlocked "func list" state | DrainFault fault

definition drain :: "state \<Rightarrow> goroutine \<Rightarrow> drain_result" where
  "drain h g =
     (case g of
        GWorker w c \<Rightarrow> DrainDone h
      | GDrainIn d old \<Rightarrow>
          (case fchans h old of
             None \<Rightarrow> DrainBlocked [] h
           | Some c \<Rightarrow>
               (let h1 = h\<lparr>fchans := (fchans h)(old \<mapsto> c\<lparr>ch_buf := []\<rparr>)\<rparr>
                in case range_chan (ch_buf c) (ch_closed c) [] of
                     RangeBlocked tmpQueue \<Rightarrow> DrainBlocked tmpQueue h1
                   | RangeDone tmpQueue \<Rightarrow>
                       (case dispatchers h1 d of
                          None \<Rightarrow> DrainFault (Panic NilDereference)
                        | Some dr \<Rightarrow>
                            (case wg_done (set_disp h1 d (dr\<lparr>queue := queue dr @ tmpQueue\<rparr>)) d of
                               Inl e \<Rightarrow> DrainFault e
                             | Inr h2 \<Rightarrow> DrainDone h2))))
      | GDrainOut d old \<Rightarrow>
          (case fchans h old of
             None \<Rightarrow> DrainBlocked [] h
           | Some c \<Rightarrow>
               (let h1 = h\<lparr>fchans := (fchans h)(old \<mapsto> c\<lparr>ch_buf := []\<rparr>)\<rparr>
                in case range_chan (ch_buf c) (ch_closed c) [] of
                     RangeBlocked tmpQueue \<Rightarrow> DrainBlocked tmpQueue h1
                   | RangeDone tmpQueue \<Rightarrow>
                       (case dispatchers h1 d of
                          None \<Rightarrow> DrainFault (Panic NilDereference)
                        | Some dr \<Rightarrow>
                            (case wg_done (set_disp h1 d (dr\<lparr>queue := tmpQueue @ queue dr\<rparr>)) d of
                               Inl e \<Rightarrow> DrainFault e
                             | Inr h2 \<Rightarrow> DrainDone h2)))))"

text \<open>The loop of \<^verbatim>\<open>UpScale\<close>: append a new worker while \<open>diff\<close> is at least one.\<close>

function add_workers :: "state \<Rightarrow> addr \<Rightarrow> int \<Rightarrow> fault + state" where
  "add_workers h d diff =
     (if diff < 1 then Inr h
      else (case dispatchers h d of
              None \<Rightarrow> Inl (Panic NilDereference)
            | Some dr \<Rightarrow>
                (case new_worker h d of
                   (w, h1) \<Rightarrow>
                     add_workers (set_disp h1 d (dr\<lparr>workers := workers dr @ [w]\<rparr>)) d (diff - 1))))"
  by pat_completeness auto
termination
  by (relation "measure (\<lambda>(h, d, diff). nat diff)") auto

declare add_workers.simps [simp del]

definition UpScale :: "state \<Rightarrow> addr \<Rightarrow> int \<Rightarrow> fault + state" where
  "UpScale h d n =
     (case ScaleBuffer h d (int64 (n * 100)) of
        Inl e \<Rightarrow> Inl e
      | Inr h1 \<Rightarrow>
          (case dispatchers h1 d of
             None \<Rightarrow> Inl (Panic NilDereference)
           | Some dr1 \<Rightarrow>
               (case add_workers (set_disp h1 d (dr1\<lparr>scaling := True\<rparr>)) d
                       (int64 (n - int (length (workers dr1)))) of
                  Inl e \<Rightarrow> Inl e
                | Inr h2 \<Rightarrow>
                    (case dispatchers h2 d of
                       None \<Rightarrow> Inl (Panic NilDereference)
                     | Some dr2 \<Rightarrow>
                         (case (if running dr2
                                then Start (set_disp h2 d (dr2\<lparr>workerCount := n\<rparr>)) d
                                else Inr (set_disp h2 d (dr2\<lparr>workerCount := n\<rparr>))) of
                            Inl e \<Rightarrow> Inl e
                          | Inr h3 \<Rightarrow>
                              (case dispatchers h3 d of
                                 None \<Rightarrow> Inl (Panic NilDereference)
                               | Some dr3 \<Rightarrow> Inr (set_disp h3 d (dr3\<lparr>scaling := False\<rparr>))))))))"

text \<open>
  One pass of the loop of \<^verbatim>\<open>DownScale\<close> at index \<open>idx\<close>: stop the worker there when both
  the dispatcher and the worker are flagged running, cut it out of the slice, and advance
  the index, wrapping to zero at the end of the shortened slice.  An index at or past the
  length panics (in \<^verbatim>\<open>d.workers[idx]\<close> or in \<^verbatim>\<open>d.workers[idx+1:]\<close>).
\<close>

definition remove_at :: "state \<Rightarrow> addr \<Rightarrow> nat \<Rightarrow> fault + (state \<times> nat)" where
  "remove_at h d idx =
     (case dispatchers h d of
        None \<Rightarrow> Inl (Panic NilDereference)
      | Some dr \<Rightarrow>
          if length (workers dr) \<le> idx then Inl (Panic IndexOutOfRange)
          else (case (if running dr
                      then (case worker_heap h (workers dr ! idx) of
                              None \<Rightarrow> Inl (Panic NilDereference)
                            | Some wr \<Rightarrow>
                                if w_running wr then worker_stop h (workers dr ! idx) else Inr h)
                      else Inr h) of
                  Inl e \<Rightarrow> Inl e
                | Inr h1 \<Rightarrow>
                    (let ws = take idx (workers dr) @ drop (Suc idx) (workers dr)
                     in Inr (set_disp h1 d (dr\<lparr>workers := ws\<rparr>),
                             if length ws \<le> Suc idx then 0 else Suc idx))))"

function remove_workers :: "state \<Rightarrow> addr \<Rightarrow> int \<Rightarrow> nat \<Rightarrow> fault + state" where
  "remove_workers h d diff idx =
     (if diff < 1 then Inr h
      else (case remove_at h d idx of
              Inl e \<Rightarrow> Inl e
            | Inr (h1, idx1) \<Rightarrow> remove_workers h1 d (diff - 1) idx1))"
  by pat_completeness auto
termination
  by (relation "measure (\<lambda>(h, d, diff, idx). nat diff)") auto

declare remove_workers.simps [simp del]

definition DownScale :: "state \<Rightarrow> addr \<Rightarrow> int \<Rightarrow> fault + state" where
  "DownScale h d n =
     (case ScaleBuffer h d (int64 (n * 100)) of
        Inl e \<Rightarrow> Inl e
      | Inr h1 \<Rightarrow>
          (case dispatchers h1 d of
             None \<Rightarrow> Inl (Panic NilDereference)
           | Some dr1 \<Rightarrow>
               (case remove_workers (set_disp h1 d (dr1\<lparr>scaling := True\<rparr>)) d
                       (int64 (int (length (workers dr1)) - n)) 0 of
                  Inl e \<Rightarrow> Inl e
                | Inr h2 \<Rightarrow>
                    (case dispatchers h2 d of
                       None \<Rightarrow> Inl (Panic NilDereference)
                     | Some dr2 \<Rightarrow>
                         Inr (set_disp h2 d (dr2\<lparr>workerCount := n, scaling := False\<rparr>))))))"

definition AutoScale :: "state \<Rightarrow> addr \<Rightarrow> fault + state" where
  "AutoScale h d =
     (case dispatchers h d of
        None \<Rightarrow> Inl (Panic NilDereference)
      | Some dr \<Rightarrow>
          if int (length (workers dr)) > workerCount dr then DownScale h d (workerCount dr)
          else if int (length (workers dr)) < workerCount dr then UpScale h d (workerCount dr)
          else Inr h)"

section \<open>The package-level instance\<close>

text \<open>
  \<^verbatim>\<open>Get\<close>: normalise the count, build the instance on the first call
  (\<^verbatim>\<open>once.Do\<close>), store the count as the target and reconcile with \<^verbatim>\<open>AutoScale\<close> when the
  worker set has another size.
\<close>

definition Get :: "state \<Rightarrow> int \<Rightarrow> fault + (addr \<times> state)" where
  "Get h maxWorker =
     (let m = (if maxWorker < 1 then 1 else maxWorker)
      in case (if once_done h then Inr h
               else (case New h m of
                       Inl e \<Rightarrow> Inl e
                     | Inr (d, h1) \<Rightarrow> Inr (h1\<lparr>the_instance := d, once_done := True\<rparr>))) of
           Inl e \<Rightarrow> Inl e
         | Inr h1 \<Rightarrow>
             (case dispatchers h1 (the_instance h1) of
                None \<Rightarrow> Inl (Panic NilDereference)
              | Some dr \<Rightarrow>
                  (case (if int (length (workers dr)) \<noteq> m
                         then AutoScale (set_disp h1 (the_instance h1) (dr\<lparr>workerCount := m\<rparr>))
                                (the_instance h1)
                         else Inr (set_disp h1 (the_instance h1) (dr\<lparr>workerCount := m\<rparr>))) of
                     Inl e \<Rightarrow> Inl e
                   | Inr h2 \<Rightarrow> Inr (the_instance h1, h2))))"

section \<open>The relay\<close>

text \<open>
  One pass of the loop of \<^verbatim>\<open>QueueRunner\<close> through its receive branch: take a closure from
  \<^verbatim>\<open>d.qin\<close> (nil from a closed and empty channel), append it to \<^verbatim>\<open>d.queue\<close>, then send
  the head of \<^verbatim>\<open>d.queue\<close> on \<^verbatim>\<open>d.qout\<close> and drop it from the list.
\<close>

definition relay_receive :: "state \<Rightarrow> addr \<Rightarrow> fault + state" where
  "relay_receive h d =
     (case dispatchers h d of
        None \<Rightarrow> Inl (Panic NilDereference)
      | Some dr \<Rightarrow>
          (case fchans h (qin dr) of
             None \<Rightarrow> Inl Blocked
           | Some ci \<Rightarrow>
               (if ch_buf ci = [] \<and> \<not> ch_closed ci then Inl Blocked
                else
                  (let job = (case ch_buf ci of [] \<Rightarrow> FnNil | j # rest \<Rightarrow> j);
                       h1 = h\<lparr>fchans := (fchans h)(qin dr \<mapsto> ci\<lparr>ch_buf := tl (ch_buf ci)\<rparr>)\<rparr>
                   in case queue dr @ [job] of
                        [] \<Rightarrow> Inr (set_disp h1 d (dr\<lparr>queue := []\<rparr>))
                      | q # qs \<Rightarrow>
                          (case fchans h1 (qout dr) of
                             None \<Rightarrow> Inl Blocked
                           | Some co \<Rightarrow>
                               (case send q co of
                                  Inl e \<Rightarrow> Inl e
                                | Inr c1 \<Rightarrow>
                                    Inr (set_disp (h1\<lparr>fchans := (fchans h1)(qout dr \<mapsto> c1)\<rparr>)
                                           d (dr\<lparr>queue := qs\<rparr>))))))))"

section \<open>Notions used to state the properties\<close>

text \<open>A send on the channel completes at once.\<close>

definition can_send :: "'a chan \<Rightarrow> bool" where
  "can_send c = (\<not> ch_closed c \<and> has_room c)"

definition fresh_worker :: "addr \<Rightarrow> worker" where
  "fresh_worker d = \<lparr>dis = d, kill = make_chan 1, w_running = False\<rparr>"

definition flagged :: "state \<Rightarrow> addr \<Rightarrow> bool" where
  "flagged h w = (case worker_heap h w of None \<Rightarrow> False | Some wr \<Rightarrow> w_running wr)"

definition mark_started :: "addr set \<Rightarrow> (addr \<rightharpoonup> worker) \<Rightarrow> (addr \<rightharpoonup> worker)" where
  "mark_started S m = (\<lambda>a. if a \<in> S then map_option (\<lambda>wr. wr\<lparr>w_running := True\<rparr>) (m a) else m a)"

definition workers_ok :: "state \<Rightarrow> Dispatcher \<Rightarrow> bool" where
  "workers_ok h dr =
     (distinct (workers dr) \<and> int (length (workers dr)) \<le> 9223372036854775807 \<and>
      (\<forall>w\<in>set (workers dr). w < nxt h \<and>
         (case worker_heap h w of None \<Rightarrow> False | Some wr \<Rightarrow> can_send (kill wr))))"

definition drop_nth :: "nat \<Rightarrow> 'a list \<Rightarrow> 'a list" where
  "drop_nth idx ws = take idx ws @ drop (Suc idx) ws"

fun down_cut :: "nat \<Rightarrow> nat \<Rightarrow> 'a list \<Rightarrow> 'a list" where
  "down_cut 0 idx ws = ws"
| "down_cut (Suc k) idx ws =
     down_cut k (if length (drop_nth idx ws) \<le> Suc idx then 0 else Suc idx) (drop_nth idx ws)"

definition stop_flagged :: "worker \<Rightarrow> worker" where
  "stop_flagged wr = (if w_running wr then wr\<lparr>kill := push () (kill wr), w_running := False\<rparr> else wr)"

definition stop_all :: "bool \<Rightarrow> addr set \<Rightarrow> (addr \<rightharpoonup> worker) \<Rightarrow> (addr \<rightharpoonup> worker)" where
  "stop_all b S m = (\<lambda>a. if b \<and> a \<in> S then map_option stop_flagged (m a) else m a)"

text \<open>
  Concrete stores for the examples: a dispatcher built by \<^verbatim>\<open>New(2)\<close> on the empty store
  (the dispatcher is object 3, its queues are 1 and 2, its workers 4 and 5), the same after
  \<^verbatim>\<open>Start()\<close>, and a started dispatcher whose output queue holds one nil entry that is
  counted as pending.
\<close>

definition demo_new :: state where
  "demo_new = (case New empty_state 2 of Inr (d, h) \<Rightarrow> h | Inl e \<Rightarrow> empty_state)"

definition demo_run :: state where
  "demo_run = (case Start demo_new 3 of Inr h \<Rightarrow> h | Inl e \<Rightarrow> empty_state)"

definition demo_dispatcher :: Dispatcher where
  "demo_dispatcher = \<lparr>running = True, scaling = False, resizing = False, queue = [],
     qin = 1, qout = 2, wg = 0, workerCount = 2, workers = [4, 5],
     ctx = WithCancel 6 Background, cancel = Some 6\<rparr>"

definition demo_nil :: state where
  "demo_nil = demo_run\<lparr>fchans := (fchans demo_run)(2 \<mapsto> push FnNil (make_chan 200)),
       dispatchers := (dispatchers demo_run)(3 \<mapsto> demo_dispatcher\<lparr>wg := 1\<rparr>)\<rparr>"

text \<open>The started example dispatcher installed as the package-level instance.\<close>

definition demo_instance :: state where
  "demo_instance = demo_run\<lparr>the_instance := 3, once_done := True\<rparr>"

text \<open>
  The started example dispatcher after two calls of \<^verbatim>\<open>Add\<close> and one pass of the relay: the
  first job waits in the output queue, the second in the intake queue.
\<close>

definition demo_queued :: state where
  "demo_queued =
     (case Add demo_run 3 (Job 1 None) of
        Inl e \<Rightarrow> empty_state
      | Inr (e1, h1) \<Rightarrow>
          (case Add h1 3 (Job 2 (Some ''failed'')) of
             Inl e \<Rightarrow> empty_state
           | Inr (e2, h2) \<Rightarrow>
               (case relay_receive h2 3 of Inl e \<Rightarrow> empty_state | Inr h3 \<Rightarrow> h3)))"

text \<open>Every channel of closures in the store is open.\<close>

definition all_open :: "state \<Rightarrow> bool" where
  "all_open h = (\<forall>a c. fchans h a = Some c \<longrightarrow> \<not> ch_closed c)"

section \<open>Sends\<close>

lemma send_ok: "can_send c \<Longrightarrow> send x c = Inr (push x c)"
  by (simp add: send_def can_send_def)

lemma send_not_blocked: "has_room c \<Longrightarrow> send x c \<noteq> Inl Blocked"
  by (simp add: send_def)

lemma send_open: "send x c = Inr c1 \<Longrightarrow> ch_closed c1 = ch_closed c"
  by (auto simp: send_def push_def split: if_splits)

section \<open>Arithmetic of the buffer size\<close>

text \<open>
  The products stay inside the 64-bit range for the counts the theorems speak about.
\<close>

lemma int64_id: "- 9223372036854775808 \<le> x \<Longrightarrow> x < 9223372036854775808 \<Longrightarrow> int64 x = x"
  by (simp add: int64_def)

lemma scale_size: 
  assumes "0 \<le> n" "n \<le> 922337203685477"
  shows "buffer_size (int64 (n * 100)) = min (n * 10000) 1000000"
proof -
  have "int64 (n * 100) = n * 100" using assms by (intro int64_id) auto
  moreover have "int64 (n * 100 * 100) = n * 100 * 100" using assms by (intro int64_id) auto
  ultimately show ?thesis by (simp add: buffer_size_def)
qed

lemma new_size:
  assumes "0 \<le> n" "n \<le> 92233720368547758"
  shows "buffer_size n = min (n * 100) 1000000"
proof -
  have "int64 (n * 100) = n * 100" using assms by (intro int64_id) auto
  then show ?thesis by (simp add: buffer_size_def)
qed

section \<open>Construction in closed form\<close>

text \<open>
  \<^verbatim>\<open>New\<close> on any store, for a count within the largest slice of workers: the result,
  what it contains, and what it leaves alone.
\<close>

lemma fill_workers_upt:
  assumes "dispatchers h d = Some dr" "length (workers dr) = m" "i + j = m"
  shows "fill_workers h d [i..<m] =
     Inr (h\<lparr>worker_heap := (\<lambda>a. if nxt h \<le> a \<and> a < nxt h + j then Some (fresh_worker d) else worker_heap h a),
             nxt := nxt h + j,
             dispatchers := (dispatchers h)(d \<mapsto> dr\<lparr>workers := take i (workers dr) @ [nxt h ..< nxt h + j]\<rparr>)\<rparr>)"
  using assms
proof (induction j arbitrary: h dr i)
  case 0
  have "(\<lambda>a. if nxt h \<le> a \<and> a < nxt h + 0 then Some (fresh_worker d) else worker_heap h a) = worker_heap h"
    by (auto simp: fun_eq_iff)
  with 0 show ?case by (simp add: map_upd_triv)
next
  case (Suc j)
  from Suc.prems have im: "i < m" by simp
  then have up: "[i..<m] = i # [Suc i..<m]" by (rule upt_conv_Cons)
  define dr1 where "dr1 = dr\<lparr>workers := (workers dr)[i := nxt h]\<rparr>"
  define h1 where "h1 = set_disp (snd (new_worker h d)) d dr1"
  have step: "fill_workers h d [i..<m] = fill_workers h1 d [Suc i..<m]"
    unfolding up using Suc.prems(1) by (simp add: new_worker_def h1_def dr1_def)
  have p: "dispatchers h1 d = Some dr1" "length (workers dr1) = m" "Suc i + j = m"
    using Suc.prems by (simp_all add: h1_def dr1_def set_disp_def)
  have tk: "take (Suc i) (workers dr1) = take i (workers dr) @ [nxt h]"
    using im Suc.prems(2) by (simp add: dr1_def take_Suc_conv_app_nth)
  have u2: "nxt h # [Suc (nxt h)..<Suc (nxt h + j)] = [nxt h..<Suc (nxt h + j)]"
    by (simp add: upt_conv_Cons del: upt_Suc)
  show ?case
    unfolding step Suc.IH[OF p] tk
    by (auto simp: h1_def dr1_def set_disp_def new_worker_def fresh_worker_def fun_eq_iff u2
             simp del: upt_Suc intro!: state.equality)
qed

lemma New_closed:
  fixes h :: state and n :: int
  assumes "(if n < 1 then 1 else n) \<le> 35184372088832"
  defines "m \<equiv> (if n < 1 then 1 else n)"
  defines "d \<equiv> Suc (Suc (nxt h))"
  shows "New h n = Inr (d,
     h\<lparr>fchans := (fchans h)(nxt h \<mapsto> make_chan (min (m * 100) 1000000),
                             Suc (nxt h) \<mapsto> make_chan (min (m * 100) 1000000)),
       worker_heap := (\<lambda>a. if Suc d \<le> a \<and> a < Suc d + nat m then Some (fresh_worker d) else worker_heap h a),
       nxt := Suc d + nat m,
       dispatchers := (dispatchers h)(d \<mapsto>
          \<lparr>running = False, scaling = False, resizing = False, queue = [],
           qin = nxt h, qout = Suc (nxt h), wg = 0, workerCount = m,
           workers = [Suc d ..< Suc d + nat m], ctx = Background, cancel = None\<rparr>)\<rparr>)"
proof -
  have m: "1 \<le> m" "m \<le> 35184372088832" using assms(1) by (auto simp: m_def)
  have bs: "buffer_size m = min (m * 100) 1000000" using m by (intro new_size) auto
  define sz where "sz = min (m * 100) 1000000"
  define dr0 where "dr0 = \<lparr>running = False, scaling = False, resizing = False, queue = [],
           qin = nxt h, qout = Suc (nxt h), wg = 0, workerCount = m,
           workers = replicate (nat m) 0, ctx = Background, cancel = None\<rparr>"
  define h1 where "h1 = h\<lparr>fchans := (fchans h)(nxt h \<mapsto> make_chan sz, Suc (nxt h) \<mapsto> make_chan sz),
       nxt := Suc d, dispatchers := (dispatchers h)(d \<mapsto> dr0)\<rparr>"
  have nd: "newDispatcher h m = Inr (d, h1)"
    using m by (simp add: newDispatcher_def alloc_fchan_def bs h1_def dr0_def sz_def d_def)
  have p: "dispatchers h1 d = Some dr0" "length (workers dr0) = nat m" "0 + nat m = nat m"
    by (simp_all add: h1_def dr0_def)
  have "New h n = (case fill_workers h1 d [0..<nat m] of Inl e \<Rightarrow> Inl e | Inr h2 \<Rightarrow> Inr (d, h2))"
    by (simp add: New_def m_def[symmetric] nd p)
  then show ?thesis
    unfolding fill_workers_upt[OF p]
    by (auto simp: h1_def dr0_def sz_def fun_eq_iff intro!: state.equality)
qed

lemma New_props:
  fixes h :: state and n :: int
  assumes "(if n < 1 then 1 else n) \<le> 35184372088832"
  defines "m \<equiv> (if n < 1 then 1 else n)"
  defines "d \<equiv> Suc (Suc (nxt h))"
  shows "\<exists>h' dr'. New h n = Inr (d, h') \<and> dispatchers h' d = Some dr' \<and>
     workers dr' = [Suc d ..< Suc d + nat m] \<and> int (length (workers dr')) = m \<and>
     workerCount dr' = m \<and> \<not> running dr' \<and> qin dr' = nxt h \<and> qout dr' = Suc (nxt h) \<and>
     ctx dr' = Background \<and> cancel dr' = None \<and> queue dr' = [] \<and> wg dr' = 0 \<and>
     fchans h' (nxt h) = Some (make_chan (min (m * 100) 1000000)) \<and>
     fchans h' (Suc (nxt h)) = Some (make_chan (min (m * 100) 1000000)) \<and>
     (\<forall>a\<in>set (workers dr'). worker_heap h' a = Some \<lparr>dis = d, kill = make_chan 1, w_running = False\<rparr>) \<and>
     nxt h' = Suc d + nat m \<and> once_done h' = once_done h \<and> the_instance h' = the_instance h"
proof -
  have "1 \<le> m" by (simp add: m_def)
  then have "int (length [Suc d ..< Suc d + nat m]) = m" by simp
  then show ?thesis
    unfolding New_closed[OF assms(1)] m_def[symmetric] d_def[symmetric]
    by (simp add: fresh_worker_def del: upt_Suc)
qed

lemma New_frame:
  fixes h :: state and n :: int
  assumes "(if n < 1 then 1 else n) \<le> 35184372088832"
  shows "\<exists>h'. New h n = Inr (Suc (Suc (nxt h)), h') \<and>
     (\<forall>x. x \<noteq> Suc (Suc (nxt h)) \<longrightarrow> dispatchers h' x = dispatchers h x) \<and>
     (\<forall>x. x < nxt h \<longrightarrow> worker_heap h' x = worker_heap h x) \<and>
     (\<forall>x. x < nxt h \<longrightarrow> fchans h' x = fchans h x) \<and>
     echans h' = echans h \<and> cancelled h' = cancelled h \<and> goroutines h' = goroutines h \<and>
     nxt h < nxt h'"
  unfolding New_closed[OF assms] by simp

text \<open>
  Above \<open>2^45\<close> \<^verbatim>\<open>New\<close> panics: in \<^verbatim>\<open>make(chan func(), ...)\<close> when the hundredfold wraps
  to a negative size, and otherwise in \<^verbatim>\<open>make([]*worker, maxWorker)\<close>, which is the case
  as long as the hundredfold does not wrap.
\<close>

lemma New_too_long:
  assumes "35184372088832 < n"
  shows "New h n = Inl (Panic (if buffer_size n < 0 then MakeChanSize else MakeSliceLen))"
proof -
  have n1: "\<not> n < 1" using assms by simp
  show ?thesis
    using assms by (simp add: New_def n1 newDispatcher_def alloc_fchan_def)
qed

lemma New_too_long_slice:
  assumes "35184372088832 < n" "n \<le> 92233720368547758"
  shows "New h n = Inl (Panic MakeSliceLen)"
proof -
  have "buffer_size n = min (n * 100) 1000000" using assms by (intro new_size) auto
  then have "\<not> buffer_size n < 0" using assms(1) by simp
  then show ?thesis using New_too_long[OF assms(1), of h] by simp
qed

section \<open>Starting workers in closed form\<close>

lemma start_workers_closed:
  assumes "\<forall>w\<in>set ws. worker_heap h w \<noteq> None" "distinct ws"
  shows "start_workers h c ws =
     Inr (h\<lparr>worker_heap := mark_started (set ws) (worker_heap h),
             goroutines := goroutines h @ map (\<lambda>w. GWorker w c) (filter (\<lambda>w. \<not> flagged h w) ws)\<rparr>)"
  using assms
proof (induction ws arbitrary: h)
  case Nil
  then show ?case by (simp add: mark_started_def)
next
  case (Cons w ws)
  from Cons.prems obtain wr where wr: "worker_heap h w = Some wr" by auto
  show ?case
  proof (cases "w_running wr")
    case True
    have "start_workers h c (w # ws) = start_workers h c ws" using wr True by simp
    also have "\<dots> = Inr (h\<lparr>worker_heap := mark_started (set ws) (worker_heap h),
             goroutines := goroutines h @ map (\<lambda>w. GWorker w c) (filter (\<lambda>w. \<not> flagged h w) ws)\<rparr>)"
      using Cons.prems by (intro Cons.IH) auto
    also have "mark_started (set ws) (worker_heap h) = mark_started (set (w # ws)) (worker_heap h)"
      using wr True by (auto simp: mark_started_def fun_eq_iff)
    finally show ?thesis using wr True by (simp add: flagged_def)
  next
    case False
    let ?h1 = "h\<lparr>worker_heap := (worker_heap h)(w \<mapsto> wr\<lparr>w_running := True\<rparr>),
                 goroutines := goroutines h @ [GWorker w c]\<rparr>"
    have "start_workers h c (w # ws) = start_workers ?h1 c ws"
      using wr False by (simp add: worker_start_def)
    also have "\<dots> = Inr (?h1\<lparr>worker_heap := mark_started (set ws) (worker_heap ?h1),
             goroutines := goroutines ?h1 @ map (\<lambda>w. GWorker w c) (filter (\<lambda>w. \<not> flagged ?h1 w) ws)\<rparr>)"
      using Cons.prems by (intro Cons.IH) auto
    also have "mark_started (set ws) (worker_heap ?h1) = mark_started (set (w # ws)) (worker_heap h)"
      using wr Cons.prems by (auto simp: mark_started_def fun_eq_iff)
    also have "filter (\<lambda>w. \<not> flagged ?h1 w) ws = filter (\<lambda>w. \<not> flagged h w) ws"
      using Cons.prems by (intro filter_cong) (auto simp: flagged_def)
    finally show ?thesis using wr False by (simp add: flagged_def)
  qed
qed

lemma StartWithContext_closed:
  assumes "dispatchers h d = Some dr" "\<forall>w\<in>set (workers dr). worker_heap h w \<noteq> None"
    "distinct (workers dr)"
  shows "StartWithContext h d c =
     Inr (h\<lparr>nxt := Suc (nxt h),
             dispatchers := (dispatchers h)(d \<mapsto>
                dr\<lparr>ctx := WithCancel (nxt h) c, cancel := Some (nxt h), running := True\<rparr>),
             worker_heap := mark_started (set (workers dr)) (worker_heap h),
             goroutines := goroutines h @
               map (\<lambda>w. GWorker w (WithCancel (nxt h) c)) (filter (\<lambda>w. \<not> flagged h w) (workers dr))\<rparr>)"
proof -
  let ?h1 = "set_disp (h\<lparr>nxt := Suc (nxt h)\<rparr>) d (dr\<lparr>ctx := WithCancel (nxt h) c, cancel := Some (nxt h)\<rparr>)"
  have a: "\<forall>w\<in>set (workers dr). worker_heap ?h1 w \<noteq> None"
    using assms(2) by (simp add: set_disp_def)
  have f: "filter (\<lambda>w. \<not> flagged ?h1 w) (workers dr) = filter (\<lambda>w. \<not> flagged h w) (workers dr)"
    by (simp add: flagged_def set_disp_def)
  show ?thesis
    using assms(1)
    by (simp add: StartWithContext_def Let_def start_workers_closed[OF a assms(3)] f)
       (simp add: set_disp_def)
qed

section \<open>Add and run in closed form\<close>

lemma Add_ok:
  assumes "dispatchers h d = Some dr" "fchans h (qin dr) = Some c" "can_send c"
  shows "Add h d j = Inr (nxt h, h\<lparr>echans := (echans h)(nxt h \<mapsto> make_chan 1), nxt := Suc (nxt h),
     dispatchers := (dispatchers h)(d \<mapsto> dr\<lparr>wg := wg dr + 1\<rparr>),
     fchans := (fchans h)(qin dr \<mapsto> push (FnJob (nxt h) j) c)\<rparr>)"
  using assms by (simp add: Add_def set_disp_def Let_def send_ok)

lemma run_job:
  assumes "worker_heap h w = Some wr" "dispatchers h (dis wr) = Some dr" "0 < wg dr"
    "echans h ech = Some (make_chan 1)"
  shows "run h w (FnJob ech j) = Inr (h\<lparr>echans := (echans h)(ech \<mapsto> \<lparr>ch_cap = 1, ch_buf = [call j], ch_closed = False\<rparr>),
        dispatchers := (dispatchers h)(dis wr \<mapsto> dr\<lparr>wg := wg dr - 1\<rparr>)\<rparr>)"
  using assms by (simp add: run_def invoke_def send_def wg_done_def has_room_def make_chan_def push_def set_disp_def)

lemma run_never_blocked:
  assumes "echans h ech = Some c" "can_send c"
  shows "run h w (FnJob ech j) \<noteq> Inl Blocked"
  using assms
  by (auto simp: run_def invoke_def send_ok wg_done_def split: option.splits)

section \<open>Stop in closed form\<close>

lemma Stop_props:
  assumes d: "dispatchers h d = Some dr" and r: "running dr" and c: "cancel dr = Some a"
    and lt: "d < nxt h"
    and len: "int (length (workers dr)) \<le> 35184372088832"
    and w: "immediately \<or> wg dr = 0"
  shows "\<exists>h' dn. Stop h d immediately = Inr (Suc (Suc (nxt h)), h') \<and>
     dispatchers h' d = Some (dr\<lparr>running := False\<rparr>) \<and>
     dispatchers h' (Suc (Suc (nxt h))) = Some dn \<and>
     int (length (workers dn)) = (if workers dr = [] then 1 else int (length (workers dr))) \<and>
     qin dn = nxt h \<and> qout dn = Suc (nxt h) \<and> ctx dn = Background \<and> cancel dn = None \<and>
     \<not> running dn \<and>
     (\<forall>x. x < nxt h \<longrightarrow> worker_heap h' x = worker_heap h x) \<and>
     (\<forall>x. x < nxt h \<longrightarrow> fchans h' x = fchans h x) \<and>
     cancelled h' = insert a (cancelled h) \<and> goroutines h' = goroutines h \<and> nxt h < nxt h'"
proof -
  define hc where "hc = set_disp (h\<lparr>cancelled := insert a (cancelled h)\<rparr>) d (dr\<lparr>running := False\<rparr>)"
  have b: "(if int (length (workers dr)) < 1 then 1 else int (length (workers dr))) \<le> 35184372088832"
    using len by simp
  have wt: "(if \<not> immediately then Wait h d else Inr h) = Inr h"
    using w d by (auto simp: Wait_def)
  have st: "Stop h d immediately = New hc (int (length (workers dr)))"
    using d r c by (simp add: Stop_def wt hc_def)
  have pc: "nxt hc = nxt h" "dispatchers hc d = Some (dr\<lparr>running := False\<rparr>)"
    "worker_heap hc = worker_heap h" "fchans hc = fchans h"
    "cancelled hc = insert a (cancelled h)" "goroutines hc = goroutines h"
    by (simp_all add: hc_def set_disp_def)
  from New_frame[OF b, of hc] obtain h' where
    f: "New hc (int (length (workers dr))) = Inr (Suc (Suc (nxt h)), h')"
     "\<forall>x. x \<noteq> Suc (Suc (nxt h)) \<longrightarrow> dispatchers h' x = dispatchers hc x"
     "\<forall>x. x < nxt h \<longrightarrow> worker_heap h' x = worker_heap h x"
     "\<forall>x. x < nxt h \<longrightarrow> fchans h' x = fchans h x"
     "cancelled h' = insert a (cancelled h)" "goroutines h' = goroutines h" "nxt h < nxt h'"
    unfolding pc by blast
  from New_props[OF b, of hc] f(1) obtain dn where
    p: "dispatchers h' (Suc (Suc (nxt h))) = Some dn"
      "int (length (workers dn)) = (if int (length (workers dr)) < 1 then 1 else int (length (workers dr)))"
      "qin dn = nxt h" "qout dn = Suc (nxt h)" "ctx dn = Background" "cancel dn = None"
      "\<not> running dn"
    unfolding pc by auto
  have l: "int (length (workers dn)) = (if workers dr = [] then 1 else int (length (workers dr)))"
    using p(2) by (cases "workers dr") auto
  have "dispatchers h' d = Some (dr\<lparr>running := False\<rparr>)"
    using f(2) lt pc(2) by simp
  then show ?thesis unfolding st using f p(1,3,4,5,6,7) l by blast
qed

section \<open>ScaleBuffer and its drains\<close>

text \<open>
  On an open channel the \<^verbatim>\<open>range\<close> loop is suspended after the resident jobs; on a closed one it ends, and the statements after the loop give \<open>out @ queue @ in\<close> in either order of the two drains.
\<close>

lemma ScaleBuffer_ok:
  assumes "dispatchers h d = Some dr" "0 \<le> buffer_size sz"
  shows "ScaleBuffer h d sz =
    Inr (h\<lparr>fchans := (fchans h)(nxt h \<mapsto> make_chan (buffer_size sz),
                                   Suc (nxt h) \<mapsto> make_chan (buffer_size sz)),
            nxt := Suc (Suc (nxt h)),
            dispatchers := (dispatchers h)(d \<mapsto> dr\<lparr>qin := nxt h, qout := Suc (nxt h), wg := wg dr + 2\<rparr>),
            goroutines := goroutines h @ [GDrainIn d (qin dr), GDrainOut d (qout dr)]\<rparr>)"
  using assms by (simp add: ScaleBuffer_def alloc_fchan_def set_disp_def)

lemma range_chan_open: "range_chan jobs False tmpQueue = RangeBlocked (tmpQueue @ jobs)"
  by (induction jobs arbitrary: tmpQueue) auto

lemma range_chan_closed: "range_chan jobs True tmpQueue = RangeDone (tmpQueue @ jobs)"
  by (induction jobs arbitrary: tmpQueue) auto

lemma drain_open:
  assumes "fchans h old = Some c" "\<not> ch_closed c"
  shows "drain h (GDrainIn d old) = DrainBlocked (ch_buf c) (h\<lparr>fchans := (fchans h)(old \<mapsto> c\<lparr>ch_buf := []\<rparr>)\<rparr>)"
    "drain h (GDrainOut d old) = DrainBlocked (ch_buf c) (h\<lparr>fchans := (fchans h)(old \<mapsto> c\<lparr>ch_buf := []\<rparr>)\<rparr>)"
  using assms by (simp_all add: drain_def range_chan_open Let_def)

lemma drain_closed:
  assumes "fchans h old = Some c" "ch_closed c" "dispatchers h d = Some dr" "0 < wg dr"
  shows "drain h (GDrainIn d old) =
      DrainDone (h\<lparr>fchans := (fchans h)(old \<mapsto> c\<lparr>ch_buf := []\<rparr>),
          dispatchers := (dispatchers h)(d \<mapsto> dr\<lparr>queue := queue dr @ ch_buf c, wg := wg dr - 1\<rparr>)\<rparr>)"
    "drain h (GDrainOut d old) =
      DrainDone (h\<lparr>fchans := (fchans h)(old \<mapsto> c\<lparr>ch_buf := []\<rparr>),
          dispatchers := (dispatchers h)(d \<mapsto> dr\<lparr>queue := ch_buf c @ queue dr, wg := wg dr - 1\<rparr>)\<rparr>)"
  using assms by (simp_all add: drain_def range_chan_closed Let_def wg_done_def set_disp_def)

lemma drains_on_closed_queues_order:
  assumes "dispatchers h d = Some dr" "2 \<le> wg dr" "oi \<noteq> oo"
    "fchans h oi = Some ci" "ch_closed ci" "fchans h oo = Some co" "ch_closed co"
  shows "\<exists>h2 h3 dr3. drain h (GDrainOut d oo) = DrainDone h2 \<and>
     drain h2 (GDrainIn d oi) = DrainDone h3 \<and> dispatchers h3 d = Some dr3 \<and>
     queue dr3 = ch_buf co @ queue dr @ ch_buf ci"
    "\<exists>h2 h3 dr3. drain h (GDrainIn d oi) = DrainDone h2 \<and>
     drain h2 (GDrainOut d oo) = DrainDone h3 \<and> dispatchers h3 d = Some dr3 \<and>
     queue dr3 = ch_buf co @ queue dr @ ch_buf ci"
proof -
  have w: "0 < wg dr" using assms(2) by simp
  define h2 where "h2 = h\<lparr>fchans := (fchans h)(oo \<mapsto> co\<lparr>ch_buf := []\<rparr>),
          dispatchers := (dispatchers h)(d \<mapsto> dr\<lparr>queue := ch_buf co @ queue dr, wg := wg dr - 1\<rparr>)\<rparr>"
  have a: "drain h (GDrainOut d oo) = DrainDone h2"
    unfolding h2_def by (rule drain_closed(2)[OF assms(6,7,1) w])
  have b: "fchans h2 oi = Some ci" "dispatchers h2 d = Some (dr\<lparr>queue := ch_buf co @ queue dr, wg := wg dr - 1\<rparr>)"
    "0 < wg (dr\<lparr>queue := ch_buf co @ queue dr, wg := wg dr - 1\<rparr>)"
    using assms(2,3,4) by (simp_all add: h2_def)
  show "\<exists>h2 h3 dr3. drain h (GDrainOut d oo) = DrainDone h2 \<and>
     drain h2 (GDrainIn d oi) = DrainDone h3 \<and> dispatchers h3 d = Some dr3 \<and>
     queue dr3 = ch_buf co @ queue dr @ ch_buf ci"
    using a drain_closed(1)[OF b(1) assms(5) b(2,3)] by simp
  define k2 where "k2 = h\<lparr>fchans := (fchans h)(oi \<mapsto> ci\<lparr>ch_buf := []\<rparr>),
          dispatchers := (dispatchers h)(d \<mapsto> dr\<lparr>queue := queue dr @ ch_buf ci, wg := wg dr - 1\<rparr>)\<rparr>"
  have a': "drain h (GDrainIn d oi) = DrainDone k2"
    unfolding k2_def by (rule drain_closed(1)[OF assms(4,5,1) w])
  have b': "fchans k2 oo = Some co" "dispatchers k2 d = Some (dr\<lparr>queue := queue dr @ ch_buf ci, wg := wg dr - 1\<rparr>)"
    "0 < wg (dr\<lparr>queue := queue dr @ ch_buf ci, wg := wg dr - 1\<rparr>)"
    using assms(2,3,6) by (simp_all add: k2_def)
  show "\<exists>h2 h3 dr3. drain h (GDrainIn d oi) = DrainDone h2 \<and>
     drain h2 (GDrainOut d oo) = DrainDone h3 \<and> dispatchers h3 d = Some dr3 \<and>
     queue dr3 = ch_buf co @ queue dr @ ch_buf ci"
    using a' drain_closed(2)[OF b'(1) assms(7) b'(2,3)] by simp
qed

section \<open>UpScale in closed form\<close>

lemma add_workers_nat:
  assumes "dispatchers h d = Some dr"
  shows "add_workers h d (int k) =
     Inr (h\<lparr>worker_heap := (\<lambda>a. if nxt h \<le> a \<and> a < nxt h + k then Some (fresh_worker d) else worker_heap h a),
             nxt := nxt h + k,
             dispatchers := (dispatchers h)(d \<mapsto> dr\<lparr>workers := workers dr @ [nxt h ..< nxt h + k]\<rparr>)\<rparr>)"
  using assms
proof (induction k arbitrary: h dr)
  case 0
  have "(\<lambda>a. if nxt h \<le> a \<and> a < nxt h + 0 then Some (fresh_worker d) else worker_heap h a) = worker_heap h"
    by (auto simp: fun_eq_iff)
  with 0 show ?case by (simp add: add_workers.simps[of h d 0] map_upd_triv)
next
  case (Suc k)
  let ?h1 = "set_disp (snd (new_worker h d)) d (dr\<lparr>workers := workers dr @ [nxt h]\<rparr>)"
  have d1: "dispatchers ?h1 d = Some (dr\<lparr>workers := workers dr @ [nxt h]\<rparr>)"
    by (simp add: set_disp_def new_worker_def)
  have step: "add_workers h d (int (Suc k)) = add_workers ?h1 d (int k)"
    using Suc.prems by (subst add_workers.simps) (simp add: new_worker_def)
  have up: "nxt h # [Suc (nxt h)..<Suc (nxt h + k)] = [nxt h..<Suc (nxt h + k)]"
    by (simp add: upt_conv_Cons del: upt_Suc)
  show ?case
    unfolding step Suc.IH[OF d1]
    by (auto simp: set_disp_def new_worker_def fresh_worker_def fun_eq_iff up simp del: upt_Suc intro!: state.equality)
qed

lemma add_workers_closed:
  assumes "dispatchers h d = Some dr"
  shows "add_workers h d diff =
     Inr (h\<lparr>worker_heap := (\<lambda>a. if nxt h \<le> a \<and> a < nxt h + nat diff then Some (fresh_worker d) else worker_heap h a),
             nxt := nxt h + nat diff,
             dispatchers := (dispatchers h)(d \<mapsto> dr\<lparr>workers := workers dr @ [nxt h ..< nxt h + nat diff]\<rparr>)\<rparr>)"
proof (cases "diff < 1")
  case True
  then have z: "nat diff = 0" by simp
  have "add_workers h d diff = Inr h" using True by (simp add: add_workers.simps[of h d diff])
  moreover have "add_workers h d (int 0) = Inr h" by (simp add: add_workers.simps[of h d 0])
  ultimately show ?thesis using add_workers_nat[OF assms, of 0] by (simp only: z)
next
  case False
  then have "diff = int (nat diff)" by simp
  then show ?thesis using add_workers_nat[OF assms, of "nat diff"] by simp
qed

lemma UpScale_closed:
  assumes d: "dispatchers h d = Some dr" and ok: "workers_ok h dr"
    and n: "0 \<le> n" "n \<le> 922337203685477"
  defines "k \<equiv> nat (n - int (length (workers dr)))"
  defines "new \<equiv> [Suc (Suc (nxt h)) ..< Suc (Suc (nxt h)) + k]"
  shows "\<exists>h' dr'. UpScale h d n = Inr h' \<and> dispatchers h' d = Some dr' \<and>
     workerCount dr' = n \<and> workers dr' = workers dr @ new \<and>
     running dr' = running dr \<and> qin dr' = nxt h \<and> qout dr' = Suc (nxt h) \<and>
     fchans h' (nxt h) = Some (make_chan (min (n * 10000) 1000000)) \<and>
     fchans h' (Suc (nxt h)) = Some (make_chan (min (n * 10000) 1000000)) \<and>
     (\<forall>a\<in>set new. worker_heap h' a = Some \<lparr>dis = d, kill = make_chan 1, w_running = running dr\<rparr>) \<and>
     (\<forall>a\<in>set new. running dr \<longrightarrow> GWorker a (ctx dr') \<in> set (goroutines h')) \<and>
     (\<forall>w\<in>set (workers dr). w < nxt h' \<and>
        (\<exists>wr. worker_heap h w = Some wr \<and>
           worker_heap h' w = Some (wr\<lparr>w_running := (w_running wr \<or> running dr)\<rparr>))) \<and>
     Suc (Suc (nxt h)) + k \<le> nxt h'"
proof -
  define sz where "sz = min (n * 10000) 1000000"
  have bs: "buffer_size (int64 (n * 100)) = min (n * 10000) 1000000"
    using n by (rule scale_size)
  define dr1 where "dr1 = dr\<lparr>qin := nxt h, qout := Suc (nxt h), wg := wg dr + 2\<rparr>"
  define h1 where "h1 = h\<lparr>fchans := (fchans h)(nxt h \<mapsto> make_chan sz, Suc (nxt h) \<mapsto> make_chan sz),
            nxt := Suc (Suc (nxt h)),
            dispatchers := (dispatchers h)(d \<mapsto> dr1),
            goroutines := goroutines h @ [GDrainIn d (qin dr), GDrainOut d (qout dr)]\<rparr>"
  have s1: "ScaleBuffer h d (int64 (n * 100)) = Inr h1"
    using ScaleBuffer_ok[OF d, of "int64 (n * 100)"] n by (simp add: bs h1_def dr1_def sz_def)
  have p1: "dispatchers h1 d = Some dr1" "nxt h1 = Suc (Suc (nxt h))"
    "worker_heap h1 = worker_heap h" "fchans h1 (nxt h) = Some (make_chan sz)"
    "fchans h1 (Suc (nxt h)) = Some (make_chan sz)"
    by (simp_all add: h1_def)
  have len: "int (length (workers dr)) \<le> 9223372036854775807"
    using ok by (simp add: workers_ok_def)
  have diff: "int64 (n - int (length (workers dr1))) = n - int (length (workers dr))"
    using n len by (simp add: dr1_def) (intro int64_id; simp)
  define h1s where "h1s = set_disp h1 d (dr1\<lparr>scaling := True\<rparr>)"
  have p1s: "dispatchers h1s d = Some (dr1\<lparr>scaling := True\<rparr>)" "nxt h1s = Suc (Suc (nxt h))"
    "worker_heap h1s = worker_heap h" "fchans h1s = fchans h1"
    by (simp_all add: h1s_def set_disp_def p1)
  define dr2 where "dr2 = dr1\<lparr>scaling := True, workers := workers dr @ new\<rparr>"
  define h2 where "h2 = h1s\<lparr>worker_heap := (\<lambda>a. if nxt h1s \<le> a \<and> a < nxt h1s + k then Some (fresh_worker d) else worker_heap h1s a),
             nxt := nxt h1s + k,
             dispatchers := (dispatchers h1s)(d \<mapsto> dr2)\<rparr>"
  have s2: "add_workers h1s d (int64 (n - int (length (workers dr1)))) = Inr h2"
    unfolding diff add_workers_closed[OF p1s(1), of "n - int (length (workers dr))"]
    by (simp add: h2_def k_def new_def dr2_def p1s dr1_def)
  have p2: "dispatchers h2 d = Some dr2" "fchans h2 = fchans h1"
    "\<And>a. a \<in> set new \<Longrightarrow> worker_heap h2 a = Some (fresh_worker d)"
    "\<And>a. a < nxt h \<Longrightarrow> worker_heap h2 a = worker_heap h a"
    "nxt h2 = Suc (Suc (nxt h)) + k"
    by (simp_all add: h2_def p1s new_def del: upt_Suc)
  define dr3 where "dr3 = dr2\<lparr>workerCount := n\<rparr>"
  define h3 where "h3 = set_disp h2 d dr3"
  have p3: "dispatchers h3 d = Some dr3" "fchans h3 = fchans h1" "worker_heap h3 = worker_heap h2"
    "nxt h3 = Suc (Suc (nxt h)) + k"
    by (simp_all add: h3_def set_disp_def p2)
  have r2: "running dr2 = running dr" by (simp add: dr2_def dr1_def)
  have old: "\<forall>w\<in>set (workers dr). w < nxt h \<and> worker_heap h w \<noteq> None"
    using ok by (auto simp: workers_ok_def split: option.splits)
  show ?thesis
  proof (cases "running dr")
    case False
    have "UpScale h d n = Inr (set_disp h3 d (dr3\<lparr>scaling := False\<rparr>))"
      using False by (simp add: UpScale_def s1 p1 h1s_def[symmetric] s2 p2 r2 h3_def[symmetric] dr3_def[symmetric] p3)
    moreover have "\<forall>a\<in>set new. worker_heap h3 a = Some \<lparr>dis = d, kill = make_chan 1, w_running = running dr\<rparr>"
      using False by (simp add: p3 p2 fresh_worker_def)
    moreover have "\<forall>w\<in>set (workers dr). w < nxt h3 \<and>
        (\<exists>wr. worker_heap h w = Some wr \<and>
           worker_heap h3 w = Some (wr\<lparr>w_running := (w_running wr \<or> running dr)\<rparr>))"
      using False old by (auto simp: p3 p2)
    moreover have "Suc (Suc (nxt h)) + k \<le> nxt h3" by (simp add: p3)
    ultimately show ?thesis using False
      by (simp add: set_disp_def p3 p1 dr3_def dr2_def dr1_def sz_def)
  next
    case True
    have alloc3: "\<forall>w\<in>set (workers dr3). worker_heap h3 w \<noteq> None"
      using old by (auto simp: p3 p2 dr3_def dr2_def)
    have dist3: "distinct (workers dr3)"
      using ok old by (auto simp: workers_ok_def new_def dr3_def dr2_def simp del: upt_Suc)
    define c where "c = WithCancel (nxt h3) Background"
    define dr4 where "dr4 = dr3\<lparr>ctx := c, cancel := Some (nxt h3), running := True\<rparr>"
    define h4 where "h4 = h3\<lparr>nxt := Suc (nxt h3),
             dispatchers := (dispatchers h3)(d \<mapsto> dr4),
             worker_heap := mark_started (set (workers dr3)) (worker_heap h3),
             goroutines := goroutines h3 @
               map (\<lambda>w. GWorker w c) (filter (\<lambda>w. \<not> flagged h3 w) (workers dr3))\<rparr>"
    have s4: "Start h3 d = Inr h4"
      unfolding Start_def StartWithContext_closed[OF p3(1) alloc3 dist3, of Background]
      by (simp add: h4_def dr4_def c_def)
    have p4: "dispatchers h4 d = Some dr4" "fchans h4 = fchans h1"
      by (simp_all add: h4_def p3)
    have "UpScale h d n = Inr (set_disp h4 d (dr4\<lparr>scaling := False\<rparr>))"
      using True by (simp add: UpScale_def s1 p1 h1s_def[symmetric] s2 p2 r2 h3_def[symmetric] dr3_def[symmetric] s4 p4)
    moreover have "\<forall>a\<in>set new. worker_heap h4 a = Some \<lparr>dis = d, kill = make_chan 1, w_running = running dr\<rparr>"
      using True by (simp add: h4_def p3 p2 fresh_worker_def mark_started_def dr3_def dr2_def)
    moreover have "\<forall>a\<in>set new. GWorker a c \<in> set (goroutines h4)"
      by (simp add: h4_def flagged_def p3 p2 fresh_worker_def dr3_def dr2_def)
    moreover have "\<forall>w\<in>set (workers dr). w < nxt h4 \<and>
        (\<exists>wr. worker_heap h w = Some wr \<and>
           worker_heap h4 w = Some (wr\<lparr>w_running := (w_running wr \<or> running dr)\<rparr>))"
      using True old by (auto simp: h4_def p3 p2 mark_started_def dr3_def dr2_def)
    moreover have "Suc (Suc (nxt h)) + k \<le> nxt h4" by (simp add: h4_def p3)
    ultimately show ?thesis using True
      by (simp add: set_disp_def p4 p1 dr4_def dr3_def dr2_def dr1_def sz_def)
  qed
qed

section \<open>DownScale in closed form\<close>

text \<open>
  First the slice alone (\<open>drop_nth\<close>, \<open>down_cut\<close>), then the loop on the store.
\<close>

lemma set_drop_nth: "set (drop_nth idx ws) \<subseteq> set ws"
  using set_take_subset[of idx ws] set_drop_subset[of "Suc idx" ws]
  by (auto simp: drop_nth_def)

lemma subseq_drop_nth: "subseq (drop_nth idx ws) ws"
proof -
  have "drop (Suc idx) ws = drop 1 (drop idx ws)" by simp
  then have "suffix (drop (Suc idx) ws) (drop idx ws)" by (simp only: suffix_drop)
  then have "subseq (drop (Suc idx) ws) (drop idx ws)" by (rule suffix_imp_subseq)
  then have "subseq (take idx ws @ drop (Suc idx) ws) (take idx ws @ drop idx ws)"
    by (intro list_emb_append_mono) auto
  then show ?thesis by (simp add: drop_nth_def)
qed

lemma length_drop_nth: "idx < length ws \<Longrightarrow> length (drop_nth idx ws) = length ws - 1"
  by (auto simp: drop_nth_def)

lemma distinct_drop_nth: "distinct ws \<Longrightarrow> distinct (drop_nth idx ws)"
proof -
  assume a: "distinct ws"
  then have "distinct (take idx ws @ drop idx ws)" by simp
  then have "set (take idx ws) \<inter> set (drop idx ws) = {}" by (simp only: distinct_append)
  moreover have "set (drop (Suc idx) ws) \<subseteq> set (drop idx ws)"
    by (rule set_drop_subset_set_drop) simp
  ultimately have "set (take idx ws) \<inter> set (drop (Suc idx) ws) = {}" by blast
  then show ?thesis using a by (simp add: drop_nth_def)
qed

lemma set_drop_nth_distinct:
  "distinct ws \<Longrightarrow> idx < length ws \<Longrightarrow> set (drop_nth idx ws) = set ws - {ws ! idx}"
proof -
  assume a: "distinct ws" "idx < length ws"
  have ws: "ws = take idx ws @ (ws ! idx) # drop (Suc idx) ws"
    using a(2) by (simp add: id_take_nth_drop)
  have "distinct (take idx ws @ (ws ! idx) # drop (Suc idx) ws)" using a(1) ws by simp
  then have "ws ! idx \<notin> set (take idx ws) \<and> ws ! idx \<notin> set (drop (Suc idx) ws)" by auto
  moreover have "set ws = set (take idx ws) \<union> {ws ! idx} \<union> set (drop (Suc idx) ws)"
    by (subst ws) auto
  ultimately show ?thesis by (auto simp: drop_nth_def)
qed

lemma set_down_cut: "set (down_cut k idx ws) \<subseteq> set ws"
proof (induction k arbitrary: idx ws)
  case 0
  then show ?case by simp
next
  case (Suc k)
  have "set (down_cut (Suc k) idx ws) \<subseteq> set (drop_nth idx ws)"
    using Suc.IH by simp
  then show ?case using set_drop_nth[of idx ws] by blast
qed

lemma subseq_down_cut: "subseq (down_cut k idx ws) ws"
proof (induction k arbitrary: idx ws)
  case 0
  then show ?case by simp
next
  case (Suc k)
  have "subseq (down_cut (Suc k) idx ws) (drop_nth idx ws)"
    using Suc.IH by simp
  then show ?case using subseq_drop_nth[of idx ws] by (rule subseq_order.order_trans)
qed

lemma length_down_cut:
  "k \<le> length ws \<Longrightarrow> idx < length ws \<or> k = 0 \<Longrightarrow> length (down_cut k idx ws) = length ws - k"
proof (induction k arbitrary: idx ws)
  case 0
  then show ?case by simp
next
  case (Suc k)
  from Suc.prems have i: "idx < length ws" by auto
  then have l: "length (drop_nth idx ws) = length ws - 1" by (rule length_drop_nth)
  have "length (down_cut k (if length (drop_nth idx ws) \<le> Suc idx then 0 else Suc idx) (drop_nth idx ws))
      = length (drop_nth idx ws) - k"
    using Suc.prems l i by (intro Suc.IH) auto
  then show ?case using l by simp
qed

lemma distinct_down_cut: "distinct ws \<Longrightarrow> distinct (down_cut k idx ws)"
  by (induction k arbitrary: idx ws) (simp_all add: distinct_drop_nth)

lemma remove_at_closed:
  assumes d: "dispatchers h d = Some dr" and i: "idx < length (workers dr)"
    and w: "worker_heap h (workers dr ! idx) = Some wr" "can_send (kill wr)"
  shows "remove_at h d idx =
     Inr (h\<lparr>worker_heap := stop_all (running dr) {workers dr ! idx} (worker_heap h),
             dispatchers := (dispatchers h)(d \<mapsto> dr\<lparr>workers := drop_nth idx (workers dr)\<rparr>)\<rparr>,
          if length (drop_nth idx (workers dr)) \<le> Suc idx then 0 else Suc idx)"
proof -
  have a: "stop_all True {workers dr ! idx} (worker_heap h) = (worker_heap h)(workers dr ! idx \<mapsto> stop_flagged wr)"
    using w by (auto simp: stop_all_def fun_eq_iff)
  have b: "stop_all False {workers dr ! idx} (worker_heap h) = worker_heap h"
    by (auto simp: stop_all_def fun_eq_iff)
  have c: "\<not> w_running wr \<Longrightarrow> (worker_heap h)(workers dr ! idx \<mapsto> stop_flagged wr) = worker_heap h"
    using w by (auto simp: stop_flagged_def fun_eq_iff)
  show ?thesis
  proof (cases "running dr")
    case False
    then show ?thesis using d i
      by (simp add: remove_at_def Let_def b drop_nth_def set_disp_def)
  next
    case True
    show ?thesis
    proof (cases "w_running wr")
      case False
      then show ?thesis using d i w True c
        by (simp add: remove_at_def Let_def a drop_nth_def set_disp_def)
    next
      case f: True
      then show ?thesis using d i w True
        by (simp add: remove_at_def Let_def a drop_nth_def set_disp_def worker_stop_def send_ok stop_flagged_def)
    qed
  qed
qed

lemma stop_all_union:
  "A \<inter> B = {} \<Longrightarrow> stop_all b A (stop_all b B m) = stop_all b (A \<union> B) m"
  by (auto simp: stop_all_def fun_eq_iff)

lemma remove_workers_nat:
  assumes "dispatchers h d = Some dr" "distinct (workers dr)"
    "\<forall>w\<in>set (workers dr). \<exists>wr. worker_heap h w = Some wr \<and> can_send (kill wr)"
    "k \<le> length (workers dr)" "idx < length (workers dr) \<or> k = 0"
  shows "remove_workers h d (int k) idx =
     Inr (h\<lparr>worker_heap := stop_all (running dr) (set (workers dr) - set (down_cut k idx (workers dr))) (worker_heap h),
             dispatchers := (dispatchers h)(d \<mapsto> dr\<lparr>workers := down_cut k idx (workers dr)\<rparr>)\<rparr>)"
  using assms
proof (induction k arbitrary: h dr idx)
  case 0
  have "stop_all (running dr) {} (worker_heap h) = worker_heap h"
    by (simp add: stop_all_def)
  with 0 show ?case by (simp add: remove_workers.simps[of h d 0] map_upd_triv)
next
  case (Suc k)
  let ?ws = "workers dr"
  from Suc.prems have i: "idx < length ?ws" by auto
  then have mem: "?ws ! idx \<in> set ?ws" by simp
  with Suc.prems(3) obtain wr where wr: "worker_heap h (?ws ! idx) = Some wr" "can_send (kill wr)"
    by blast
  define idx1 where "idx1 = (if length (drop_nth idx ?ws) \<le> Suc idx then 0 else Suc idx)"
  define dr1 where "dr1 = dr\<lparr>workers := drop_nth idx ?ws\<rparr>"
  define h1 where "h1 = h\<lparr>worker_heap := stop_all (running dr) {?ws ! idx} (worker_heap h),
             dispatchers := (dispatchers h)(d \<mapsto> dr1)\<rparr>"
  have ra: "remove_at h d idx = Inr (h1, idx1)"
    using remove_at_closed[OF Suc.prems(1) i wr] by (simp add: h1_def idx1_def dr1_def)
  have step: "remove_workers h d (int (Suc k)) idx = remove_workers h1 d (int k) idx1"
    by (subst remove_workers.simps) (simp add: ra)
  have sd: "set (drop_nth idx ?ws) = set ?ws - {?ws ! idx}"
    using Suc.prems(2) i by (rule set_drop_nth_distinct)
  have len: "length (drop_nth idx ?ws) = length ?ws - 1" using i by (rule length_drop_nth)
  have p1: "dispatchers h1 d = Some dr1" by (simp add: h1_def)
  have p2: "distinct (workers dr1)" using Suc.prems(2) by (simp add: dr1_def distinct_drop_nth)
  have p3: "\<forall>w\<in>set (workers dr1). \<exists>wr. worker_heap h1 w = Some wr \<and> can_send (kill wr)"
    using Suc.prems(3) sd by (auto simp: dr1_def h1_def stop_all_def)
  have p4: "k \<le> length (workers dr1)" using Suc.prems(4) len by (simp add: dr1_def)
  have p5: "idx1 < length (workers dr1) \<or> k = 0"
    using Suc.prems(4) len by (auto simp: dr1_def idx1_def)
  have dc: "down_cut (Suc k) idx ?ws = down_cut k idx1 (workers dr1)"
    by (simp add: idx1_def dr1_def)
  have sub: "set (down_cut k idx1 (workers dr1)) \<subseteq> set ?ws - {?ws ! idx}"
    using set_down_cut[of k idx1 "workers dr1"] sd by (simp add: dr1_def)
  have un: "(set (workers dr1) - set (down_cut k idx1 (workers dr1))) \<union> {?ws ! idx}
      = set ?ws - set (down_cut k idx1 (workers dr1))"
    using sub sd mem by (auto simp: dr1_def)
  have disj: "(set (workers dr1) - set (down_cut k idx1 (workers dr1))) \<inter> {?ws ! idx} = {}"
    using sd by (auto simp: dr1_def)
  have wh: "stop_all (running dr1) (set (workers dr1) - set (down_cut k idx1 (workers dr1))) (worker_heap h1)
      = stop_all (running dr) (set ?ws - set (down_cut (Suc k) idx ?ws)) (worker_heap h)"
    unfolding dc using stop_all_union[OF disj, of "running dr" "worker_heap h"] un
    by (simp add: h1_def dr1_def)
  show ?case
    unfolding step Suc.IH[OF p1 p2 p3 p4 p5] wh
    unfolding dc
    by (auto simp: h1_def dr1_def fun_eq_iff intro!: state.equality)
qed

lemma DownScale_closed:
  assumes d: "dispatchers h d = Some dr" and ok: "workers_ok h dr"
    and n: "0 \<le> n" "n \<le> int (length (workers dr))" "n \<le> 922337203685477"
  defines "keep \<equiv> down_cut (nat (int (length (workers dr)) - n)) 0 (workers dr)"
  shows "\<exists>h' dr'. DownScale h d n = Inr h' \<and> dispatchers h' d = Some dr' \<and>
     workerCount dr' = n \<and> workers dr' = keep \<and> int (length keep) = n \<and>
     running dr' = running dr \<and> qin dr' = nxt h \<and> qout dr' = Suc (nxt h) \<and>
     nxt h' = Suc (Suc (nxt h)) \<and>
     worker_heap h' = stop_all (running dr) (set (workers dr) - set keep) (worker_heap h)"
proof -
  define k where "k = nat (int (length (workers dr)) - n)"
  define sz where "sz = min (n * 10000) 1000000"
  have bs: "buffer_size (int64 (n * 100)) = min (n * 10000) 1000000"
    using n(1,3) by (rule scale_size)
  define dr1 where "dr1 = dr\<lparr>qin := nxt h, qout := Suc (nxt h), wg := wg dr + 2\<rparr>"
  define h1 where "h1 = h\<lparr>fchans := (fchans h)(nxt h \<mapsto> make_chan sz, Suc (nxt h) \<mapsto> make_chan sz),
            nxt := Suc (Suc (nxt h)),
            dispatchers := (dispatchers h)(d \<mapsto> dr1),
            goroutines := goroutines h @ [GDrainIn d (qin dr), GDrainOut d (qout dr)]\<rparr>"
  have s1: "ScaleBuffer h d (int64 (n * 100)) = Inr h1"
    using ScaleBuffer_ok[OF d, of "int64 (n * 100)"] n by (simp add: bs h1_def dr1_def sz_def)
  have p1: "dispatchers h1 d = Some dr1" by (simp add: h1_def)
  have len: "int (length (workers dr)) \<le> 9223372036854775807"
    using ok by (simp add: workers_ok_def)
  have diff: "int64 (int (length (workers dr1)) - n) = int k"
    using n len by (simp add: dr1_def k_def) (intro int64_id; simp)
  define dr1s where "dr1s = dr1\<lparr>scaling := True\<rparr>"
  define h1s where "h1s = set_disp h1 d dr1s"
  have p1s: "dispatchers h1s d = Some dr1s" "nxt h1s = Suc (Suc (nxt h))"
    "worker_heap h1s = worker_heap h" "workers dr1s = workers dr" "running dr1s = running dr"
    by (simp_all add: h1s_def set_disp_def h1_def dr1s_def dr1_def)
  have q2: "distinct (workers dr1s)" using ok by (simp add: p1s workers_ok_def)
  have q3: "\<forall>w\<in>set (workers dr1s). \<exists>wr. worker_heap h1s w = Some wr \<and> can_send (kill wr)"
    using ok by (auto simp: p1s workers_ok_def split: option.splits)
  have q4: "k \<le> length (workers dr1s)" using n by (simp add: p1s k_def)
  have q5: "0 < length (workers dr1s) \<or> k = 0" using q4 by auto
  define h2 where "h2 = h1s\<lparr>worker_heap := stop_all (running dr) (set (workers dr) - set keep) (worker_heap h),
             dispatchers := (dispatchers h1s)(d \<mapsto> dr1s\<lparr>workers := keep\<rparr>)\<rparr>"
  have s2: "remove_workers h1s d (int64 (int (length (workers dr1)) - n)) 0 = Inr h2"
    unfolding diff remove_workers_nat[OF p1s(1) q2 q3 q4 q5]
    by (simp add: h2_def p1s keep_def k_def)
  have p2: "dispatchers h2 d = Some (dr1s\<lparr>workers := keep\<rparr>)" by (simp add: h2_def)
  have res: "DownScale h d n = Inr (set_disp h2 d (dr1s\<lparr>workers := keep, workerCount := n, scaling := False\<rparr>))"
    by (simp add: DownScale_def s1 p1 h1s_def[symmetric] dr1s_def[symmetric] s2 p2)
  have lk: "int (length keep) = n"
    unfolding keep_def using length_down_cut[of k "workers dr" 0] q4 q5 n
    by (simp add: p1s k_def)
  show ?thesis
    unfolding res using lk
    by (simp add: set_disp_def h2_def p1s dr1s_def dr1_def)
qed

section \<open>AutoScale and Get\<close>

lemma workers_ok_after_UpScale:
  assumes ok: "workers_ok h dr" and w: "workers dr' = workers dr"
    and wh: "\<forall>w\<in>set (workers dr). w < nxt h' \<and>
        (\<exists>wr. worker_heap h w = Some wr \<and>
           worker_heap h' w = Some (wr\<lparr>w_running := (w_running wr \<or> b)\<rparr>))"
  shows "workers_ok h' dr'"
  unfolding workers_ok_def
proof (intro conjI ballI)
  show "distinct (workers dr')" using ok w by (simp add: workers_ok_def)
  show "int (length (workers dr')) \<le> 9223372036854775807" using ok w by (simp add: workers_ok_def)
next
  fix a assume a: "a \<in> set (workers dr')"
  then have a': "a \<in> set (workers dr)" using w by simp
  with wh show "a < nxt h'" by blast
  from a' wh obtain wr where wr: "worker_heap h a = Some wr"
      "worker_heap h' a = Some (wr\<lparr>w_running := (w_running wr \<or> b)\<rparr>)" by blast
  from ok a' wr(1) have "can_send (kill wr)" by (auto simp: workers_ok_def)
  then show "case worker_heap h' a of None \<Rightarrow> False | Some wr \<Rightarrow> can_send (kill wr)"
    using wr(2) by (simp add: can_send_def has_room_def)
qed

lemma UpScale_then_AutoScale:
  assumes d: "dispatchers h d = Some dr" and ok: "workers_ok h dr"
    and n: "0 \<le> n" "n < int (length (workers dr))" "n \<le> 922337203685477"
  shows "\<exists>h1 dr1. UpScale h d n = Inr h1 \<and> dispatchers h1 d = Some dr1 \<and>
     workerCount dr1 = n \<and> workers dr1 = workers dr \<and>
     (\<exists>h2 dr2. AutoScale h1 d = Inr h2 \<and> dispatchers h2 d = Some dr2 \<and>
        workerCount dr2 = n \<and> int (length (workers dr2)) = n \<and>
        subseq (workers dr2) (workers dr))"
proof -
  have k0: "nat (n - int (length (workers dr))) = 0" using n by simp
  from UpScale_closed[OF d ok n(1,3)] obtain h1 dr1 where
    u: "UpScale h d n = Inr h1" "dispatchers h1 d = Some dr1" "workerCount dr1 = n"
       "workers dr1 = workers dr"
       "\<forall>w\<in>set (workers dr). w < nxt h1 \<and>
        (\<exists>wr. worker_heap h w = Some wr \<and>
           worker_heap h1 w = Some (wr\<lparr>w_running := (w_running wr \<or> running dr)\<rparr>))"
    unfolding k0 by auto
  have ok1: "workers_ok h1 dr1" using ok u(4,5) by (rule workers_ok_after_UpScale)
  have n1: "n \<le> int (length (workers dr1))" using n u(4) by simp
  from DownScale_closed[OF u(2) ok1 n(1) n1 n(3)] obtain h2 dr2 where
    dn: "DownScale h1 d n = Inr h2" "dispatchers h2 d = Some dr2" "workerCount dr2 = n"
        "workers dr2 = down_cut (nat (int (length (workers dr1)) - n)) 0 (workers dr1)"
        "int (length (workers dr2)) = n"
    by auto
  have "AutoScale h1 d = DownScale h1 d n"
    using u n by (simp add: AutoScale_def)
  moreover have "subseq (workers dr2) (workers dr)"
    unfolding dn(4) u(4) by (rule subseq_down_cut)
  ultimately show ?thesis using u dn by simp
qed

text \<open>
  The methods of a dispatcher leave the package variables \<^verbatim>\<open>instance\<close> and \<^verbatim>\<open>once\<close> alone;
  only \<^verbatim>\<open>Get\<close> assigns them.
\<close>

lemma start_workers_pkg:
  "start_workers h c ws = Inr h' \<Longrightarrow> the_instance h' = the_instance h \<and> once_done h' = once_done h"
proof (induction ws arbitrary: h)
  case Nil
  then show ?case by simp
next
  case (Cons w ws)
  then show ?case
    by (auto simp: worker_start_def split: option.splits if_splits sum.splits)
qed

lemma add_workers_pkg:
  "add_workers h d diff = Inr h' \<Longrightarrow> the_instance h' = the_instance h \<and> once_done h' = once_done h"
proof (induction h d diff rule: add_workers.induct)
  case (1 h d diff)
  show ?case
  proof (cases "diff < 1")
    case True
    with "1.prems" show ?thesis by (simp add: add_workers.simps[of h d diff])
  next
    case False
    from "1.prems" False obtain dr where dr: "dispatchers h d = Some dr"
      by (auto simp: add_workers.simps[of h d diff] split: option.splits)
    define h1 where "h1 = set_disp (snd (new_worker h d)) d (dr\<lparr>workers := workers dr @ [fst (new_worker h d)]\<rparr>)"
    have "add_workers h1 d (diff - 1) = Inr h'"
      using "1.prems" False dr by (simp add: add_workers.simps[of h d diff] h1_def split: prod.splits)
    then have "the_instance h' = the_instance h1 \<and> once_done h' = once_done h1"
      using "1.IH"[OF False dr, of "fst (new_worker h d)" "snd (new_worker h d)"]
      by (simp add: h1_def)
    then show ?thesis by (simp add: h1_def set_disp_def new_worker_def)
  qed
qed

lemma remove_at_pkg:
  "remove_at h d idx = Inr (h', idx') \<Longrightarrow> the_instance h' = the_instance h \<and> once_done h' = once_done h"
  by (auto simp: remove_at_def worker_stop_def set_disp_def Let_def
           split: option.splits if_splits sum.splits)

lemma remove_workers_pkg:
  "remove_workers h d diff idx = Inr h' \<Longrightarrow> the_instance h' = the_instance h \<and> once_done h' = once_done h"
proof (induction h d diff idx rule: remove_workers.induct)
  case (1 h d diff idx)
  show ?case
  proof (cases "diff < 1")
    case True
    with "1.prems" show ?thesis by (simp add: remove_workers.simps[of h d diff idx])
  next
    case False
    from "1.prems" False obtain h1 idx1 where r: "remove_at h d idx = Inr (h1, idx1)"
      "remove_workers h1 d (diff - 1) idx1 = Inr h'"
      by (auto simp: remove_workers.simps[of h d diff idx] split: sum.splits)
    from "1.IH"[OF False r(1) refl r(2)] remove_at_pkg[OF r(1)] show ?thesis by simp
  qed
qed

lemma ScaleBuffer_pkg:
  "ScaleBuffer h d sz = Inr h' \<Longrightarrow> the_instance h' = the_instance h \<and> once_done h' = once_done h"
  by (auto simp: ScaleBuffer_def alloc_fchan_def set_disp_def
           split: option.splits sum.splits if_splits)

lemma StartWithContext_pkg:
  "StartWithContext h d c = Inr h' \<Longrightarrow> the_instance h' = the_instance h \<and> once_done h' = once_done h"
  by (auto simp: StartWithContext_def Let_def set_disp_def
           split: option.splits sum.splits dest!: start_workers_pkg)

lemma UpScale_pkg:
  assumes "UpScale h d n = Inr h'"
  shows "the_instance h' = the_instance h \<and> once_done h' = once_done h"
proof -
  from assms obtain h1 dr1 h2 dr2 h3 dr3 where
    a: "ScaleBuffer h d (int64 (n * 100)) = Inr h1" "dispatchers h1 d = Some dr1"
      "add_workers (set_disp h1 d (dr1\<lparr>scaling := True\<rparr>)) d (int64 (n - int (length (workers dr1)))) = Inr h2"
      "dispatchers h2 d = Some dr2"
      "(if running dr2 then Start (set_disp h2 d (dr2\<lparr>workerCount := n\<rparr>)) d
        else Inr (set_disp h2 d (dr2\<lparr>workerCount := n\<rparr>))) = Inr h3"
      "dispatchers h3 d = Some dr3" "h' = set_disp h3 d (dr3\<lparr>scaling := False\<rparr>)"
    by (auto simp: UpScale_def split: sum.splits option.splits)
  have p1: "the_instance h1 = the_instance h \<and> once_done h1 = once_done h"
    using a(1) by (rule ScaleBuffer_pkg)
  have p2: "the_instance h2 = the_instance h1 \<and> once_done h2 = once_done h1"
    using add_workers_pkg[OF a(3)] by (simp add: set_disp_def)
  have p3: "the_instance h3 = the_instance h2 \<and> once_done h3 = once_done h2"
  proof (cases "running dr2")
    case True
    with a(5) have "Start (set_disp h2 d (dr2\<lparr>workerCount := n\<rparr>)) d = Inr h3" by simp
    then show ?thesis unfolding Start_def by (auto dest!: StartWithContext_pkg simp: set_disp_def)
  next
    case False
    with a(5) show ?thesis by (auto simp: set_disp_def)
  qed
  show ?thesis using p1 p2 p3 by (simp add: a(7) set_disp_def)
qed

lemma DownScale_pkg:
  assumes "DownScale h d n = Inr h'"
  shows "the_instance h' = the_instance h \<and> once_done h' = once_done h"
proof -
  from assms obtain h1 dr1 h2 dr2 where
    a: "ScaleBuffer h d (int64 (n * 100)) = Inr h1" "dispatchers h1 d = Some dr1"
      "remove_workers (set_disp h1 d (dr1\<lparr>scaling := True\<rparr>)) d (int64 (int (length (workers dr1)) - n)) 0 = Inr h2"
      "dispatchers h2 d = Some dr2"
      "h' = set_disp h2 d (dr2\<lparr>workerCount := n, scaling := False\<rparr>)"
    by (auto simp: DownScale_def split: sum.splits option.splits)
  have p1: "the_instance h1 = the_instance h \<and> once_done h1 = once_done h"
    using a(1) by (rule ScaleBuffer_pkg)
  have p2: "the_instance h2 = the_instance h1 \<and> once_done h2 = once_done h1"
    using remove_workers_pkg[OF a(3)] by (simp add: set_disp_def)
  show ?thesis using p1 p2 by (simp add: a(5) set_disp_def)
qed

lemma AutoScale_pkg:
  "AutoScale h d = Inr h' \<Longrightarrow> the_instance h' = the_instance h \<and> once_done h' = once_done h"
  by (auto simp: AutoScale_def split: option.splits if_splits
           dest: UpScale_pkg DownScale_pkg)

text \<open>
  \<^verbatim>\<open>Get\<close>: the first call builds the instance, every later call returns the same pointer
  and rescales the dispatcher behind it to the count asked for.
\<close>

lemma Get_closed:
  fixes h :: state and n :: int
  defines "m \<equiv> (if n < 1 then 1 else n)"
  assumes m: "m \<le> 35184372088832"
    and inst: "once_done h \<Longrightarrow> \<exists>dr. dispatchers h (the_instance h) = Some dr \<and> workers_ok h dr"
  shows "\<exists>d h' dr'. Get h n = Inr (d, h') \<and>
     d = (if once_done h then the_instance h else Suc (Suc (nxt h))) \<and>
     the_instance h' = d \<and> once_done h' \<and> dispatchers h' d = Some dr' \<and>
     int (length (workers dr')) = m \<and> workerCount dr' = m"
proof (cases "once_done h")
  case False
  have m1: "1 \<le> m" by (simp add: m_def)
  have b: "(if m < 1 then 1 else m) \<le> 35184372088832" using m m1 by simp
  have mm: "(if m < 1 then 1 else m) = m" using m1 by simp
  from New_props[OF b] obtain h1 dr1 where
    nw: "New h m = Inr (Suc (Suc (nxt h)), h1)" "dispatchers h1 (Suc (Suc (nxt h))) = Some dr1"
      "int (length (workers dr1)) = m"
    unfolding mm by blast
  show ?thesis
    using False nw
    by (simp add: Get_def Let_def m_def[symmetric] set_disp_def)
next
  case True
  with inst obtain dr where dr: "dispatchers h (the_instance h) = Some dr" "workers_ok h dr"
    by blast
  define d where "d = the_instance h"
  define dr0 where "dr0 = dr\<lparr>workerCount := m\<rparr>"
  define h0 where "h0 = set_disp h d dr0"
  have p0: "dispatchers h0 d = Some dr0" by (simp add: h0_def set_disp_def)
  have k0: "the_instance h0 = d" "once_done h0" using True by (simp_all add: h0_def set_disp_def d_def)
  have ok0: "workers_ok h0 dr0" using dr(2) by (simp add: workers_ok_def h0_def dr0_def set_disp_def)
  have m1: "0 \<le> m" by (simp add: m_def)
  have m2: "m \<le> 922337203685477" using m by simp
  have g: "Get h n = (case (if int (length (workers dr)) \<noteq> m then AutoScale h0 d else Inr h0) of
       Inl e \<Rightarrow> Inl e | Inr h2 \<Rightarrow> Inr (d, h2))"
    using True dr(1) unfolding d_def h0_def dr0_def
    by (simp add: Get_def Let_def m_def[symmetric])
  have "\<exists>h2 dr2. (if int (length (workers dr)) \<noteq> m then AutoScale h0 d else Inr h0) = Inr h2 \<and>
      dispatchers h2 d = Some dr2 \<and> int (length (workers dr2)) = m \<and> workerCount dr2 = m \<and>
      the_instance h2 = d \<and> once_done h2"
  proof -
    consider (eq) "int (length (workers dr)) = m" | (gt) "int (length (workers dr)) > m"
      | (lt) "int (length (workers dr)) < m" by linarith
    then show ?thesis
    proof cases
      case eq
      then show ?thesis using p0 k0 by (simp add: dr0_def)
    next
      case gt
      then have le: "m \<le> int (length (workers dr0))" by (simp add: dr0_def)
      from DownScale_closed[OF p0 ok0 m1 le m2] obtain h2 dr2 where
        dn: "DownScale h0 d m = Inr h2" "dispatchers h2 d = Some dr2" "workerCount dr2 = m"
          "workers dr2 = down_cut (nat (int (length (workers dr0)) - m)) 0 (workers dr0)"
          "int (length (down_cut (nat (int (length (workers dr0)) - m)) 0 (workers dr0))) = m"
        by auto
      have "AutoScale h0 d = DownScale h0 d m" using gt p0 by (simp add: AutoScale_def dr0_def)
      then show ?thesis using gt dn DownScale_pkg[OF dn(1)] k0 by simp
    next
      case lt
      from UpScale_closed[OF p0 ok0 m1 m2] obtain h2 dr2 where
        up: "UpScale h0 d m = Inr h2" "dispatchers h2 d = Some dr2" "workerCount dr2 = m"
          "workers dr2 = workers dr0 @ [Suc (Suc (nxt h0))..<Suc (Suc (nxt h0)) + nat (m - int (length (workers dr0)))]"
        by auto
      have "AutoScale h0 d = UpScale h0 d m" using lt p0 by (simp add: AutoScale_def dr0_def)
      moreover have "int (length (workers dr2)) = m" using lt by (simp add: up(4) dr0_def del: upt_Suc)
      ultimately show ?thesis using lt up UpScale_pkg[OF up(1)] k0 by simp
    qed
  qed
  then obtain h2 dr2 where
    r: "(if int (length (workers dr)) \<noteq> m then AutoScale h0 d else Inr h0) = Inr h2"
      "dispatchers h2 d = Some dr2" "int (length (workers dr2)) = m" "workerCount dr2 = m"
      "the_instance h2 = d" "once_done h2"
    by blast
  have "Get h n = Inr (d, h2)" unfolding g r(1) by simp
  then show ?thesis using r(2-6) True by (simp add: d_def)
qed

section \<open>Invariants of the reachable stores\<close>

text \<open>
  No operation closes a channel: starting from the empty store, every channel of closures
  stays open under every method and every goroutine step of the model.  A drain on such a
  store therefore never finishes.
\<close>

lemma all_open_empty: "all_open empty_state"
  by (simp add: all_open_def empty_state_def)

lemma all_open_cong: "fchans h' = fchans h \<Longrightarrow> all_open h \<Longrightarrow> all_open h'"
  by (simp add: all_open_def)

lemma alloc_fchan_open: "alloc_fchan h sz = Inr (a, h') \<Longrightarrow> all_open h \<Longrightarrow> all_open h'"
  by (auto simp: alloc_fchan_def all_open_def make_chan_def split: if_splits)

lemma fill_workers_fchans: "fill_workers h d js = Inr h' \<Longrightarrow> fchans h' = fchans h"
proof (induction js arbitrary: h)
  case Nil
  then show ?case by simp
next
  case (Cons i js)
  then show ?case
    by (auto simp: new_worker_def set_disp_def split: option.splits)
qed

lemma start_workers_fchans: "start_workers h c ws = Inr h' \<Longrightarrow> fchans h' = fchans h"
proof (induction ws arbitrary: h)
  case Nil
  then show ?case by simp
next
  case (Cons w ws)
  then show ?case
    by (auto simp: worker_start_def split: option.splits if_splits sum.splits)
qed

lemma add_workers_fchans: "add_workers h d diff = Inr h' \<Longrightarrow> fchans h' = fchans h"
proof (induction h d diff rule: add_workers.induct)
  case (1 h d diff)
  show ?case
  proof (cases "diff < 1")
    case True
    with "1.prems" show ?thesis by (simp add: add_workers.simps[of h d diff])
  next
    case False
    from "1.prems" False obtain dr where dr: "dispatchers h d = Some dr"
      by (auto simp: add_workers.simps[of h d diff] split: option.splits)
    define h1 where "h1 = set_disp (snd (new_worker h d)) d (dr\<lparr>workers := workers dr @ [fst (new_worker h d)]\<rparr>)"
    have "add_workers h1 d (diff - 1) = Inr h'"
      using "1.prems" False dr by (simp add: add_workers.simps[of h d diff] h1_def split: prod.splits)
    then have "fchans h' = fchans h1"
      using "1.IH"[OF False dr, of "fst (new_worker h d)" "snd (new_worker h d)"]
      by (simp add: h1_def)
    then show ?thesis by (simp add: h1_def set_disp_def new_worker_def)
  qed
qed

lemma remove_at_fchans: "remove_at h d idx = Inr (h', idx') \<Longrightarrow> fchans h' = fchans h"
  by (auto simp: remove_at_def worker_stop_def set_disp_def Let_def
           split: option.splits if_splits sum.splits)

lemma remove_workers_fchans: "remove_workers h d diff idx = Inr h' \<Longrightarrow> fchans h' = fchans h"
proof (induction h d diff idx rule: remove_workers.induct)
  case (1 h d diff idx)
  show ?case
  proof (cases "diff < 1")
    case True
    with "1.prems" show ?thesis by (simp add: remove_workers.simps[of h d diff idx])
  next
    case False
    from "1.prems" False obtain h1 idx1 where r: "remove_at h d idx = Inr (h1, idx1)"
      "remove_workers h1 d (diff - 1) idx1 = Inr h'"
      by (auto simp: remove_workers.simps[of h d diff idx] split: sum.splits)
    from "1.IH"[OF False r(1) refl r(2)] remove_at_fchans[OF r(1)] show ?thesis by simp
  qed
qed

lemma New_open: "New h n = Inr (d, h') \<Longrightarrow> all_open h \<Longrightarrow> all_open h'"
  unfolding New_def newDispatcher_def
  by (auto split: sum.splits option.splits if_splits
           dest!: fill_workers_fchans alloc_fchan_open
           simp: all_open_def)

lemma StartWithContext_fchans: "StartWithContext h d c = Inr h' \<Longrightarrow> fchans h' = fchans h"
  by (auto simp: StartWithContext_def Let_def set_disp_def
           split: option.splits sum.splits dest!: start_workers_fchans)

lemma Start_open: "Start h d = Inr h' \<Longrightarrow> all_open h \<Longrightarrow> all_open h'"
  unfolding Start_def by (drule StartWithContext_fchans) (rule all_open_cong)

lemma Stop_open: "Stop h d immediately = Inr (d', h') \<Longrightarrow> all_open h \<Longrightarrow> all_open h'"
proof -
  assume s: "Stop h d immediately = Inr (d', h')" and o: "all_open h"
  show ?thesis
  proof (cases "\<exists>dr a. dispatchers h d = Some dr \<and> running dr \<and> cancel dr = Some a")
    case False
    with s have "h' = h" by (auto simp: Stop_def split: option.splits if_splits sum.splits)
    with o show ?thesis by simp
  next
    case True
    then obtain dr a where dr: "dispatchers h d = Some dr" "running dr" "cancel dr = Some a" by blast
    define hc where "hc = set_disp (h\<lparr>cancelled := insert a (cancelled h)\<rparr>) d (dr\<lparr>running := False\<rparr>)"
    have "all_open hc" using o by (simp add: all_open_def hc_def set_disp_def)
    moreover have "New hc (int (length (workers dr))) = Inr (d', h')"
      using s dr by (auto simp: Stop_def Wait_def hc_def split: if_splits)
    ultimately show ?thesis by (rule New_open[rotated])
  qed
qed

lemma ScaleBuffer_open: "ScaleBuffer h d sz = Inr h' \<Longrightarrow> all_open h \<Longrightarrow> all_open h'"
  by (auto simp: ScaleBuffer_def alloc_fchan_def all_open_def make_chan_def set_disp_def
           split: option.splits sum.splits if_splits)

lemma UpScale_open:
  assumes "UpScale h d n = Inr h'" "all_open h"
  shows "all_open h'"
proof -
  from assms(1) obtain h1 dr1 h2 dr2 h3 dr3 where
    a: "ScaleBuffer h d (int64 (n * 100)) = Inr h1" "dispatchers h1 d = Some dr1"
      "add_workers (set_disp h1 d (dr1\<lparr>scaling := True\<rparr>)) d (int64 (n - int (length (workers dr1)))) = Inr h2"
      "dispatchers h2 d = Some dr2"
      "(if running dr2 then Start (set_disp h2 d (dr2\<lparr>workerCount := n\<rparr>)) d
        else Inr (set_disp h2 d (dr2\<lparr>workerCount := n\<rparr>))) = Inr h3"
      "dispatchers h3 d = Some dr3" "h' = set_disp h3 d (dr3\<lparr>scaling := False\<rparr>)"
    by (auto simp: UpScale_def split: sum.splits option.splits)
  have o1: "all_open h1" using a(1) assms(2) by (rule ScaleBuffer_open)
  have "fchans h2 = fchans h1" using add_workers_fchans[OF a(3)] by (simp add: set_disp_def)
  then have o2: "all_open (set_disp h2 d (dr2\<lparr>workerCount := n\<rparr>))"
    using o1 by (simp add: all_open_def set_disp_def)
  have "all_open h3"
  proof (cases "running dr2")
    case True
    with a(5) have "Start (set_disp h2 d (dr2\<lparr>workerCount := n\<rparr>)) d = Inr h3" by simp
    then show ?thesis using o2 by (rule Start_open)
  next
    case False
    with a(5) o2 show ?thesis by simp
  qed
  then show ?thesis by (simp add: a(7) all_open_def set_disp_def)
qed

lemma DownScale_open:
  assumes "DownScale h d n = Inr h'" "all_open h"
  shows "all_open h'"
proof -
  from assms(1) obtain h1 dr1 h2 dr2 where
    a: "ScaleBuffer h d (int64 (n * 100)) = Inr h1" "dispatchers h1 d = Some dr1"
      "remove_workers (set_disp h1 d (dr1\<lparr>scaling := True\<rparr>)) d (int64 (int (length (workers dr1)) - n)) 0 = Inr h2"
      "dispatchers h2 d = Some dr2"
      "h' = set_disp h2 d (dr2\<lparr>workerCount := n, scaling := False\<rparr>)"
    by (auto simp: DownScale_def split: sum.splits option.splits)
  have o1: "all_open h1" using a(1) assms(2) by (rule ScaleBuffer_open)
  have "fchans h2 = fchans h1" using remove_workers_fchans[OF a(3)] by (simp add: set_disp_def)
  then show ?thesis using o1 by (simp add: a(5) all_open_def set_disp_def)
qed

lemma AutoScale_open: "AutoScale h d = Inr h' \<Longrightarrow> all_open h \<Longrightarrow> all_open h'"
  by (auto simp: AutoScale_def split: option.splits if_splits
           intro: UpScale_open DownScale_open)

lemma Get_open:
  assumes "Get h n = Inr (d, h')" "all_open h"
  shows "all_open h'"
proof -
  let ?m = "if n < 1 then 1 else n"
  let ?first = "if once_done h then Inr h
         else (case New h ?m of Inl e \<Rightarrow> Inl e
               | Inr (d, h1) \<Rightarrow> Inr (h1\<lparr>the_instance := d, once_done := True\<rparr>))"
  from assms(1) obtain h1 where a1: "?first = Inr h1"
    by (cases ?first) (simp_all add: Get_def Let_def)
  from assms(1) a1 obtain dr where a2: "dispatchers h1 (the_instance h1) = Some dr"
    by (cases "dispatchers h1 (the_instance h1)") (simp_all add: Get_def Let_def)
  let ?h2 = "set_disp h1 (the_instance h1) (dr\<lparr>workerCount := ?m\<rparr>)"
  let ?inner = "if int (length (workers dr)) \<noteq> ?m then AutoScale ?h2 (the_instance h1) else Inr ?h2"
  have g: "Get h n = (case ?inner of Inl e \<Rightarrow> Inl e | Inr h2 \<Rightarrow> Inr (the_instance h1, h2))"
    by (simp only: Get_def Let_def a1 a2 sum.case option.case)
  have a3: "?inner = Inr h'"
    using assms(1) unfolding g by (cases ?inner) simp_all
  have o1: "all_open h1"
  proof (cases "once_done h")
    case True
    with a1 assms(2) show ?thesis by simp
  next
    case False
    with a1 obtain d0 h0 where n: "New h ?m = Inr (d0, h0)" "h1 = h0\<lparr>the_instance := d0, once_done := True\<rparr>"
      by (auto split: sum.splits)
    from New_open[OF n(1) assms(2)] show ?thesis by (simp add: n(2) all_open_def)
  qed
  then have o2: "all_open ?h2"
    by (simp add: all_open_def set_disp_def)
  show ?thesis
  proof (cases "int (length (workers dr)) \<noteq> ?m")
    case True
    with a3 have "AutoScale ?h2 (the_instance h1) = Inr h'" by simp
    then show ?thesis using o2 by (rule AutoScale_open)
  next
    case False
    with a3 o2 show ?thesis by simp
  qed
qed

lemma Add_open: "Add h d j = Inr (ech, h') \<Longrightarrow> all_open h \<Longrightarrow> all_open h'"
  by (auto simp: Add_def Let_def set_disp_def all_open_def
           split: option.splits if_splits sum.splits dest: send_open)

lemma run_fchans: "run h w job = Inr h' \<Longrightarrow> fchans h' = fchans h"
  by (auto simp: run_def invoke_def wg_done_def set_disp_def
           split: option.splits if_splits sum.splits func.splits)

lemma worker_receive_open: "worker_receive h w = Inr h' \<Longrightarrow> all_open h \<Longrightarrow> all_open h'"
  by (auto simp: worker_receive_def all_open_def
           split: option.splits list.splits if_splits dest!: run_fchans)

lemma relay_receive_open: "relay_receive h d = Inr h' \<Longrightarrow> all_open h \<Longrightarrow> all_open h'"
  by (auto simp: relay_receive_def Let_def set_disp_def all_open_def send_def push_def
           split: option.splits list.splits if_splits)

lemma drain_open_state:
  "all_open h \<Longrightarrow> drain h g = DrainBlocked tmpQueue h' \<Longrightarrow> all_open h'"
  "all_open h \<Longrightarrow> drain h g = DrainDone h' \<Longrightarrow> all_open h'"
  by (auto simp: drain_def Let_def all_open_def wg_done_def set_disp_def
           split: goroutine.splits option.splits range_result.splits sum.splits if_splits)

lemma drain_never_done_when_open:
  assumes "all_open h" "g = GDrainIn d old \<or> g = GDrainOut d old"
  shows "drain h g \<noteq> DrainDone h'"
  using assms
  by (auto simp: drain_def Let_def all_open_def range_chan_open
           split: option.splits)

text \<open>
  The well-formedness that the theorems on rescaling assume of a dispatcher (distinct,
  allocated workers below the allocation pointer, each with room in its kill channel) is
  established by \<^verbatim>\<open>New\<close> and kept by \<^verbatim>\<open>Start\<close>, \<^verbatim>\<open>UpScale\<close> and \<^verbatim>\<open>DownScale\<close>.
\<close>

lemma workers_ok_New:
  fixes h :: state and n :: int
  assumes "(if n < 1 then 1 else n) \<le> 35184372088832"
  shows "\<exists>h' dr'. New h n = Inr (Suc (Suc (nxt h)), h') \<and>
     dispatchers h' (Suc (Suc (nxt h))) = Some dr' \<and> workers_ok h' dr'"
proof -
  let ?m = "if n < 1 then 1 else n"
  let ?d = "Suc (Suc (nxt h))"
  from New_props[OF assms, of h] obtain h' dr' where
    p: "New h n = Inr (?d, h')" "dispatchers h' ?d = Some dr'"
      "workers dr' = [Suc ?d ..< Suc ?d + nat ?m]" "int (length (workers dr')) = ?m"
      "\<forall>a\<in>set (workers dr'). worker_heap h' a = Some \<lparr>dis = ?d, kill = make_chan 1, w_running = False\<rparr>"
      "nxt h' = Suc ?d + nat ?m"
    by blast
  have "workers_ok h' dr'"
    unfolding workers_ok_def
  proof (intro conjI ballI)
    show "distinct (workers dr')" by (simp add: p(3) del: upt_Suc)
    show "int (length (workers dr')) \<le> 9223372036854775807" using p(4) assms by simp
  next
    fix w assume w: "w \<in> set (workers dr')"
    then show "w < nxt h'" by (simp add: p(3,6) del: upt_Suc)
    from w p(5) show "case worker_heap h' w of None \<Rightarrow> False | Some wr \<Rightarrow> can_send (kill wr)"
      by (simp add: can_send_def has_room_def make_chan_def)
  qed
  with p(1,2) show ?thesis by blast
qed

lemma workers_ok_Start:
  assumes d: "dispatchers h d = Some dr" and ok: "workers_ok h dr"
  shows "\<exists>h' dr'. Start h d = Inr h' \<and> dispatchers h' d = Some dr' \<and> workers_ok h' dr' \<and>
     running dr' \<and> workers dr' = workers dr \<and> (\<forall>w\<in>set (workers dr'). flagged h' w)"
proof -
  have al: "\<forall>w\<in>set (workers dr). worker_heap h w \<noteq> None"
    using ok by (auto simp: workers_ok_def split: option.splits)
  have di: "distinct (workers dr)" using ok by (simp add: workers_ok_def)
  define h' where "h' = h\<lparr>nxt := Suc (nxt h),
             dispatchers := (dispatchers h)(d \<mapsto>
                dr\<lparr>ctx := WithCancel (nxt h) Background, cancel := Some (nxt h), running := True\<rparr>),
             worker_heap := mark_started (set (workers dr)) (worker_heap h),
             goroutines := goroutines h @
               map (\<lambda>w. GWorker w (WithCancel (nxt h) Background)) (filter (\<lambda>w. \<not> flagged h w) (workers dr))\<rparr>"
  have st: "Start h d = Inr h'"
    unfolding Start_def StartWithContext_closed[OF d al di] by (simp add: h'_def)
  have "workers_ok h' (dr\<lparr>ctx := WithCancel (nxt h) Background, cancel := Some (nxt h), running := True\<rparr>)"
    using ok by (auto simp: workers_ok_def h'_def mark_started_def split: option.splits)
  moreover have "\<forall>w\<in>set (workers dr). flagged h' w"
    using al by (auto simp: flagged_def h'_def mark_started_def split: option.splits)
  ultimately show ?thesis using st by (simp add: h'_def)
qed

lemma workers_ok_UpScale:
  assumes d: "dispatchers h d = Some dr" and ok: "workers_ok h dr"
    and n: "0 \<le> n" "n \<le> 922337203685477"
  shows "\<exists>h' dr'. UpScale h d n = Inr h' \<and> dispatchers h' d = Some dr' \<and> workers_ok h' dr'"
proof -
  define k where "k = nat (n - int (length (workers dr)))"
  define new where "new = [Suc (Suc (nxt h)) ..< Suc (Suc (nxt h)) + k]"
  from UpScale_closed[OF d ok n] obtain h' dr' where
    u: "UpScale h d n = Inr h'" "dispatchers h' d = Some dr'"
     "workers dr' = workers dr @ new"
     "\<forall>a\<in>set new. worker_heap h' a = Some \<lparr>dis = d, kill = make_chan 1, w_running = running dr\<rparr>"
     "\<forall>w\<in>set (workers dr). w < nxt h' \<and> (\<exists>wr. worker_heap h w = Some wr \<and>
        worker_heap h' w = Some (wr\<lparr>w_running := (w_running wr \<or> running dr)\<rparr>))"
     "Suc (Suc (nxt h)) + k \<le> nxt h'"
    unfolding k_def new_def by blast
  have old: "\<forall>w\<in>set (workers dr). w < nxt h" using ok by (simp add: workers_ok_def)
  have "workers_ok h' dr'"
    unfolding workers_ok_def
  proof (intro conjI ballI)
    show "distinct (workers dr')"
      using ok old by (auto simp: u(3) new_def workers_ok_def simp del: upt_Suc)
    have "int (length (workers dr)) \<le> 9223372036854775807" using ok by (simp add: workers_ok_def)
    then show "int (length (workers dr')) \<le> 9223372036854775807"
      using n by (simp add: u(3) new_def k_def del: upt_Suc)
  next
    fix w assume w: "w \<in> set (workers dr')"
    then consider (o) "w \<in> set (workers dr)" | (nw) "w \<in> set new" by (auto simp: u(3))
    then show "w < nxt h'"
    proof cases
      case o
      with u(5) show ?thesis by blast
    next
      case nw
      then show ?thesis using u(6) by (simp add: new_def del: upt_Suc)
    qed
    from w consider (o) "w \<in> set (workers dr)" | (nw) "w \<in> set new" by (auto simp: u(3))
    then show "case worker_heap h' w of None \<Rightarrow> False | Some wr \<Rightarrow> can_send (kill wr)"
    proof cases
      case o
      with u(5) obtain wr where wr: "worker_heap h w = Some wr"
        "worker_heap h' w = Some (wr\<lparr>w_running := (w_running wr \<or> running dr)\<rparr>)" by blast
      from ok o wr(1) have "can_send (kill wr)" by (auto simp: workers_ok_def)
      then show ?thesis using wr(2) by (simp add: can_send_def has_room_def)
    next
      case nw
      with u(4) show ?thesis by (simp add: can_send_def has_room_def make_chan_def)
    qed
  qed
  with u(1,2) show ?thesis by blast
qed

lemma workers_ok_DownScale:
  assumes d: "dispatchers h d = Some dr" and ok: "workers_ok h dr"
    and n: "0 \<le> n" "n \<le> int (length (workers dr))" "n \<le> 922337203685477"
  shows "\<exists>h' dr'. DownScale h d n = Inr h' \<and> dispatchers h' d = Some dr' \<and> workers_ok h' dr'"
proof -
  define keep where "keep = down_cut (nat (int (length (workers dr)) - n)) 0 (workers dr)"
  from DownScale_closed[OF d ok n] obtain h' dr' where
    u: "DownScale h d n = Inr h'" "dispatchers h' d = Some dr'" "workers dr' = keep"
      "int (length keep) = n" "nxt h' = Suc (Suc (nxt h))"
      "worker_heap h' = stop_all (running dr) (set (workers dr) - set keep) (worker_heap h)"
    unfolding keep_def by blast
  have sub: "set keep \<subseteq> set (workers dr)" unfolding keep_def by (rule set_down_cut)
  have "distinct keep"
    using ok by (simp add: keep_def workers_ok_def distinct_down_cut)
  moreover have "\<forall>w\<in>set keep. w < nxt h' \<and>
      (case worker_heap h' w of None \<Rightarrow> False | Some wr \<Rightarrow> can_send (kill wr))"
  proof
    fix w assume w: "w \<in> set keep"
    with sub have w': "w \<in> set (workers dr)" by blast
    with ok have "w < nxt h" "case worker_heap h w of None \<Rightarrow> False | Some wr \<Rightarrow> can_send (kill wr)"
      by (simp_all add: workers_ok_def)
    then show "w < nxt h' \<and>
      (case worker_heap h' w of None \<Rightarrow> False | Some wr \<Rightarrow> can_send (kill wr))"
      using w by (simp add: u(5,6) stop_all_def)
  qed
  ultimately have "workers_ok h' dr'"
    using n u(4) by (simp add: workers_ok_def u(3))
  with u(1,2) show ?thesis by blast
qed

section \<open>The example stores\<close>

text \<open>
  The example stores are reached by the operations themselves.
\<close>

lemma demo_new_reached: "New empty_state 2 = Inr (3, demo_new)"
proof -
  have "case New empty_state 2 of Inl e \<Rightarrow> False | Inr (d, h) \<Rightarrow> d = 3" by code_simp
  then show ?thesis by (auto simp: demo_new_def split: sum.splits)
qed

lemma demo_run_reached: "Start demo_new 3 = Inr demo_run"
proof -
  have "case Start demo_new 3 of Inl e \<Rightarrow> False | Inr h \<Rightarrow> True" by code_simp
  then show ?thesis by (auto simp: demo_run_def split: sum.splits)
qed

lemma demo_run_facts:
  "dispatchers demo_run 3 = Some demo_dispatcher"
  "fchans demo_run 1 = Some (make_chan 200)"
  "fchans demo_run 2 = Some (make_chan 200)"
  "worker_heap demo_run 4 = Some \<lparr>dis = 3, kill = make_chan 1, w_running = True\<rparr>"
  "worker_heap demo_run 5 = Some \<lparr>dis = 3, kill = make_chan 1, w_running = True\<rparr>"
  "nxt demo_run = 7"
  "goroutines demo_run = [GWorker 4 (WithCancel 6 Background), GWorker 5 (WithCancel 6 Background)]"
  by code_simp+

lemma demo_run_ok: "workers_ok demo_run demo_dispatcher"
  by code_simp

lemma demo_queued_facts:
  "dispatchers demo_queued 3 = Some (demo_dispatcher\<lparr>wg := 2\<rparr>)"
  "fchans demo_queued 1 = Some \<lparr>ch_cap = 200, ch_buf = [FnJob 8 (Job 2 (Some ''failed''))], ch_closed = False\<rparr>"
  "fchans demo_queued 2 = Some \<lparr>ch_cap = 200, ch_buf = [FnJob 7 (Job 1 None)], ch_closed = False\<rparr>"
  "nxt demo_queued = 9"
  by code_simp+

section \<open>Submitting and running jobs\<close>

text \<open>
  C5.  When the intake queue takes a send at once (it is open and has room; otherwise the
  caller is suspended in the send), \<^verbatim>\<open>Add(job)\<close> returns a new channel of capacity one,
  raises the pending counter by exactly one and appends the closure for the job to the
  intake queue, and nothing else changes.  Whenever a worker later runs that closure while
  the channel is still as \<^verbatim>\<open>Add\<close> made it and the job is still counted, the channel receives
  exactly what the job returns (nil or its error) and the pending counter of the worker's
  dispatcher goes down by exactly one, whatever the job returns.
\<close>

theorem Add_counts_once_and_run_settles:
  assumes "dispatchers h d = Some dr" "fchans h (qin dr) = Some c" "can_send c"
  shows "Add h d j = Inr (nxt h,
           h\<lparr>echans := (echans h)(nxt h \<mapsto> make_chan 1), nxt := Suc (nxt h),
             dispatchers := (dispatchers h)(d \<mapsto> dr\<lparr>wg := wg dr + 1\<rparr>),
             fchans := (fchans h)(qin dr \<mapsto> push (FnJob (nxt h) j) c)\<rparr>) \<and>
     (\<forall>h2 w wr dr2.
        worker_heap h2 w = Some wr \<and> dispatchers h2 (dis wr) = Some dr2 \<and> 0 < wg dr2 \<and>
        echans h2 (nxt h) = Some (make_chan 1) \<longrightarrow>
        run h2 w (FnJob (nxt h) j) =
          Inr (h2\<lparr>echans := (echans h2)(nxt h \<mapsto>
                       \<lparr>ch_cap = 1, ch_buf = [call j], ch_closed = False\<rparr>),
                   dispatchers := (dispatchers h2)(dis wr \<mapsto> dr2\<lparr>wg := wg dr2 - 1\<rparr>)\<rparr>))"
  using Add_ok[OF assms] run_job by blast

theorem Add_counts_once_witness:
  "dispatchers demo_run 3 = Some demo_dispatcher \<and> fchans demo_run 1 = Some (make_chan 200) \<and>
   can_send (make_chan 200 :: func chan) \<and>
   (\<exists>h1 h2. Add demo_run 3 (Job 1 (Some ''boom'')) = Inr (7, h1) \<and>
      map_option wg (dispatchers h1 3) = Some 1 \<and>
      map_option ch_buf (fchans h1 1) = Some [FnJob 7 (Job 1 (Some ''boom''))] \<and>
      run h1 4 (FnJob 7 (Job 1 (Some ''boom''))) = Inr h2 \<and>
      map_option ch_buf (echans h2 7) = Some [Some ''boom''] \<and>
      map_option wg (dispatchers h2 3) = Some 0)"
proof -
  have a: "dispatchers demo_run 3 = Some demo_dispatcher" by (rule demo_run_facts)
  have b: "fchans demo_run (qin demo_dispatcher) = Some (make_chan 200)"
    by (simp add: demo_dispatcher_def demo_run_facts del: One_nat_def)
  have c: "can_send (make_chan 200 :: func chan)" by (simp add: can_send_def has_room_def make_chan_def)
  note t = Add_counts_once_and_run_settles[OF a b c, of "Job 1 (Some ''boom'')"]
  define h1 where "h1 = demo_run\<lparr>echans := (echans demo_run)(7 \<mapsto> make_chan 1), nxt := 8,
             dispatchers := (dispatchers demo_run)(3 \<mapsto> demo_dispatcher\<lparr>wg := 1\<rparr>),
             fchans := (fchans demo_run)(1 \<mapsto> push (FnJob 7 (Job 1 (Some ''boom''))) (make_chan 200))\<rparr>"
  have add: "Add demo_run 3 (Job 1 (Some ''boom'')) = Inr (7, h1)"
    using t by (simp add: demo_run_facts h1_def demo_dispatcher_def del: One_nat_def)
  have r: "run h1 4 (FnJob 7 (Job 1 (Some ''boom''))) =
          Inr (h1\<lparr>echans := (echans h1)(7 \<mapsto> \<lparr>ch_cap = 1, ch_buf = [Some ''boom''], ch_closed = False\<rparr>),
                   dispatchers := (dispatchers h1)(3 \<mapsto> demo_dispatcher\<lparr>wg := 1, wg := 1 - 1\<rparr>)\<rparr>)"
    using t[THEN conjunct2, rule_format, of h1 4 "\<lparr>dis = 3, kill = make_chan 1, w_running = True\<rparr>" "demo_dispatcher\<lparr>wg := 1\<rparr>"]
    by (simp add: demo_run_facts h1_def del: One_nat_def)
  show ?thesis
    using a b c add r
    by (simp add: demo_dispatcher_def h1_def push_def make_chan_def demo_run_facts del: One_nat_def)
qed

text \<open>
  C8.  The channel returned by \<^verbatim>\<open>Add\<close> is empty and has capacity one, so as long as nothing
  has been sent on it a worker running the closure is never suspended in the send, also
  when the caller never receives from the channel.
\<close>

theorem completion_signal_delivery_never_blocks:
  assumes "dispatchers h d = Some dr" "fchans h (qin dr) = Some c" "can_send c"
  shows "\<exists>h1. Add h d j = Inr (nxt h, h1) \<and>
     echans h1 (nxt h) = Some \<lparr>ch_cap = 1, ch_buf = [], ch_closed = False\<rparr> \<and>
     (\<forall>h2 w. echans h2 (nxt h) = echans h1 (nxt h) \<longrightarrow>
        run h2 w (FnJob (nxt h) j) \<noteq> Inl Blocked)"
proof -
  have r: "can_send (make_chan 1)" by (simp add: can_send_def has_room_def make_chan_def)
  have "\<And>h2 w. echans h2 (nxt h) = Some (make_chan 1) \<Longrightarrow> run h2 w (FnJob (nxt h) j) \<noteq> Inl Blocked"
    by (rule run_never_blocked[OF _ r])
  then show ?thesis
    unfolding Add_ok[OF assms]
    by (simp add: make_chan_def)
qed

theorem completion_signal_witness:
  "dispatchers demo_run 3 = Some demo_dispatcher \<and> fchans demo_run 1 = Some (make_chan 200) \<and>
   can_send (make_chan 200 :: func chan) \<and>
   (\<exists>h1. Add demo_run 3 (Job 2 None) = Inr (7, h1) \<and>
      map_option ch_cap (echans h1 7) = Some 1 \<and>
      run h1 5 (FnJob 7 (Job 2 None)) \<noteq> Inl Blocked)"
proof -
  have a: "dispatchers demo_run 3 = Some demo_dispatcher" by (rule demo_run_facts)
  have b: "fchans demo_run (qin demo_dispatcher) = Some (make_chan 200)"
    by (simp add: demo_dispatcher_def demo_run_facts del: One_nat_def)
  have c: "can_send (make_chan 200 :: func chan)" by (simp add: can_send_def has_room_def make_chan_def)
  from completion_signal_delivery_never_blocks[OF a b c, of "Job 2 None"]
  obtain h1 where h1: "Add demo_run 3 (Job 2 None) = Inr (7, h1)"
      "echans h1 7 = Some \<lparr>ch_cap = 1, ch_buf = [], ch_closed = False\<rparr>"
      "\<forall>h2 w. echans h2 7 = echans h1 7 \<longrightarrow> run h2 w (FnJob 7 (Job 2 None)) \<noteq> Inl Blocked"
    by (auto simp: demo_run_facts)
  from h1(3) have "run h1 5 (FnJob 7 (Job 2 None)) \<noteq> Inl Blocked" by blast
  then show ?thesis using a b c h1(1,2)
    by (auto simp: demo_dispatcher_def simp del: One_nat_def)
qed

text \<open>
  C9.  When the head of the output queue is a nil closure that is counted as pending (the
  counter is positive; \<^verbatim>\<open>Done\<close> on a zero counter panics), the worker's receive branch
  takes it off the queue and, without calling anything or touching any completion channel,
  lowers the pending counter by exactly one; \<^verbatim>\<open>run\<close> on nil does only the decrement.
\<close>

theorem nil_job_skipped_and_counted:
  assumes "worker_heap h w = Some wr" "dispatchers h (dis wr) = Some dr"
    "fchans h (qout dr) = Some c" "ch_buf c = FnNil # rest" "0 < wg dr"
  shows "worker_receive h w =
     Inr (h\<lparr>fchans := (fchans h)(qout dr \<mapsto> c\<lparr>ch_buf := rest\<rparr>),
            dispatchers := (dispatchers h)(dis wr \<mapsto> dr\<lparr>wg := wg dr - 1\<rparr>)\<rparr>) \<and>
     run h w FnNil = Inr (h\<lparr>dispatchers := (dispatchers h)(dis wr \<mapsto> dr\<lparr>wg := wg dr - 1\<rparr>)\<rparr>)"
  using assms by (simp add: worker_receive_def run_def wg_done_def set_disp_def)

theorem nil_job_witness:
  "worker_heap demo_nil 4 = Some \<lparr>dis = 3, kill = make_chan 1, w_running = True\<rparr> \<and>
   dispatchers demo_nil 3 = Some (demo_dispatcher\<lparr>wg := 1\<rparr>) \<and>
   fchans demo_nil 2 = Some (push FnNil (make_chan 200)) \<and>
   (\<exists>h'. worker_receive demo_nil 4 = Inr h' \<and> echans h' = echans demo_nil \<and>
      map_option wg (dispatchers h' 3) = Some 0 \<and>
      map_option ch_buf (fchans h' 2) = Some [])"
proof -
  have a: "worker_heap demo_nil 4 = Some \<lparr>dis = 3, kill = make_chan 1, w_running = True\<rparr>"
    by (simp add: demo_nil_def demo_run_facts)
  have b: "dispatchers demo_nil (dis \<lparr>dis = 3, kill = make_chan 1, w_running = True\<rparr>) = Some (demo_dispatcher\<lparr>wg := 1\<rparr>)"
    by (simp add: demo_nil_def)
  have c: "fchans demo_nil (qout (demo_dispatcher\<lparr>wg := 1\<rparr>)) = Some (push FnNil (make_chan 200))"
    by (simp add: demo_nil_def demo_dispatcher_def)
  have d: "ch_buf (push FnNil (make_chan 200)) = FnNil # []" by (simp add: push_def make_chan_def)
  have e: "0 < wg (demo_dispatcher\<lparr>wg := 1\<rparr>)" by simp
  from nil_job_skipped_and_counted[OF a b c d e]
  show ?thesis using a b c by (simp add: demo_dispatcher_def)
qed

section \<open>Growing and shrinking the worker set\<close>

text \<open>
  C3, as amended.  On a well-formed dispatcher with \<open>w\<close> workers and for every \<open>n\<close> from
  \<open>0\<close> up to \<open>922337203685477\<close> (so that \<open>n * 10000\<close> is a 64-bit integer), \<^verbatim>\<open>UpScale(n)\<close>
  returns, replaces both queues by new channels of capacity \<open>min (n * 10000) 1000000\<close>,
  sets the target to \<open>n\<close> and appends \<open>n - w\<close> newly allocated workers (none when
  \<open>n \<le> w\<close>, where the worker set stays as it is).  A new worker ends up not started on a
  stopped dispatcher, and started, with its goroutine bound to the dispatcher's new
  context, on a running one.  The old workers keep their state, except that a running
  dispatcher starts those not yet started.
\<close>

theorem UpScale_appends_and_starts:
  assumes "dispatchers h d = Some dr" "workers_ok h dr" "0 \<le> n" "n \<le> 922337203685477"
  shows "\<exists>h' dr'. UpScale h d n = Inr h' \<and> dispatchers h' d = Some dr' \<and>
     workerCount dr' = n \<and>
     workers dr' = workers dr @
        [Suc (Suc (nxt h)) ..< Suc (Suc (nxt h)) + nat (n - int (length (workers dr)))] \<and>
     (n \<le> int (length (workers dr)) \<longrightarrow> workers dr' = workers dr) \<and>
     (int (length (workers dr)) < n \<longrightarrow> int (length (workers dr')) = n) \<and>
     running dr' = running dr \<and> qin dr' = nxt h \<and> qout dr' = Suc (nxt h) \<and>
     fchans h' (nxt h) = Some (make_chan (min (n * 10000) 1000000)) \<and>
     fchans h' (Suc (nxt h)) = Some (make_chan (min (n * 10000) 1000000)) \<and>
     (\<forall>a\<in>set [Suc (Suc (nxt h)) ..< Suc (Suc (nxt h)) + nat (n - int (length (workers dr)))].
        worker_heap h' a = Some \<lparr>dis = d, kill = make_chan 1, w_running = running dr\<rparr> \<and>
        (running dr \<longrightarrow> GWorker a (ctx dr') \<in> set (goroutines h'))) \<and>
     (\<forall>w\<in>set (workers dr). \<exists>wr. worker_heap h w = Some wr \<and>
        worker_heap h' w = Some (wr\<lparr>w_running := (w_running wr \<or> running dr)\<rparr>))"
proof -
  from UpScale_closed[OF assms] obtain h' dr' where
    u: "UpScale h d n = Inr h'" "dispatchers h' d = Some dr'" "workerCount dr' = n"
     "workers dr' = workers dr @
        [Suc (Suc (nxt h)) ..< Suc (Suc (nxt h)) + nat (n - int (length (workers dr)))]"
     "running dr' = running dr" "qin dr' = nxt h" "qout dr' = Suc (nxt h)"
     "fchans h' (nxt h) = Some (make_chan (min (n * 10000) 1000000))"
     "fchans h' (Suc (nxt h)) = Some (make_chan (min (n * 10000) 1000000))"
     "\<forall>a\<in>set [Suc (Suc (nxt h)) ..< Suc (Suc (nxt h)) + nat (n - int (length (workers dr)))].
        worker_heap h' a = Some \<lparr>dis = d, kill = make_chan 1, w_running = running dr\<rparr>"
     "\<forall>a\<in>set [Suc (Suc (nxt h)) ..< Suc (Suc (nxt h)) + nat (n - int (length (workers dr)))].
        running dr \<longrightarrow> GWorker a (ctx dr') \<in> set (goroutines h')"
     "\<forall>w\<in>set (workers dr). w < nxt h' \<and> (\<exists>wr. worker_heap h w = Some wr \<and>
        worker_heap h' w = Some (wr\<lparr>w_running := (w_running wr \<or> running dr)\<rparr>))"
    by blast
  have a: "n \<le> int (length (workers dr)) \<longrightarrow> workers dr' = workers dr"
    by (simp add: u(4))
  have b: "int (length (workers dr)) < n \<longrightarrow> int (length (workers dr')) = n"
    by (simp add: u(4) del: upt_Suc)
  show ?thesis
    using u(1,2,3,4) a b u(5,6,7,8,9) u(10,11,12) by blast
qed

theorem UpScale_appends_witness:
  "dispatchers demo_run 3 = Some demo_dispatcher \<and> workers_ok demo_run demo_dispatcher \<and>
   (\<exists>h' dr'. UpScale demo_run 3 4 = Inr h' \<and> dispatchers h' 3 = Some dr' \<and>
      workerCount dr' = 4 \<and> workers dr' = [4, 5, 9, 10] \<and>
      worker_heap h' 9 = Some \<lparr>dis = 3, kill = make_chan 1, w_running = True\<rparr> \<and>
      worker_heap h' 10 = Some \<lparr>dis = 3, kill = make_chan 1, w_running = True\<rparr> \<and>
      GWorker 9 (ctx dr') \<in> set (goroutines h') \<and> GWorker 10 (ctx dr') \<in> set (goroutines h'))"
proof -
  have a: "dispatchers demo_run 3 = Some demo_dispatcher" by (rule demo_run_facts)
  have b: "workers_ok demo_run demo_dispatcher" by (rule demo_run_ok)
  have new: "[Suc (Suc (nxt demo_run)) ..< Suc (Suc (nxt demo_run)) + nat (4 - int (length (workers demo_dispatcher)))] = [9, 10]"
    by code_simp
  have r: "running demo_dispatcher" by (simp add: demo_dispatcher_def)
  from UpScale_appends_and_starts[OF a b, of 4, unfolded new]
  obtain h' dr' where
    u: "UpScale demo_run 3 4 = Inr h'" "dispatchers h' 3 = Some dr'" "workerCount dr' = 4"
      "workers dr' = workers demo_dispatcher @ [9, 10]"
      "\<forall>a\<in>set [9, 10].
        worker_heap h' a = Some \<lparr>dis = 3, kill = make_chan 1, w_running = running demo_dispatcher\<rparr> \<and>
        (running demo_dispatcher \<longrightarrow> GWorker a (ctx dr') \<in> set (goroutines h'))"
    by auto
  show ?thesis
    using a b u r by (auto simp: demo_dispatcher_def)
qed

text \<open>
  The claim as written, for every \<open>n\<close>, fails: \<^verbatim>\<open>UpScale(-1)\<close> panics in \<^verbatim>\<open>ScaleBuffer\<close>, in
  \<^verbatim>\<open>make(chan func(), -10000)\<close>, before any buffer is resized.
\<close>

theorem UpScale_negative_counterexample:
  "UpScale demo_run 3 (- 1) = Inl (Panic MakeChanSize)"
proof -
  have "case UpScale demo_run 3 (- 1) of Inl e \<Rightarrow> e = Panic MakeChanSize | Inr h \<Rightarrow> False"
    by code_simp
  then show ?thesis by (simp split: sum.splits)
qed

text \<open>
  C4, as amended.  On a well-formed dispatcher with \<open>w\<close> workers and for \<open>1 \<le> n \<le> w\<close>
  (with \<open>n * 10000\<close> a 64-bit integer), \<^verbatim>\<open>DownScale(n)\<close> returns with target \<open>n\<close> and exactly
  \<open>n\<close> workers left: the slice that remains when, starting at index \<open>0\<close>, the loop cuts one
  element and moves on one place, wrapping to \<open>0\<close> at the end (\<open>down_cut\<close>).  A removed
  worker is sent the stop signal, and has its flag cleared, exactly when both the
  dispatcher and the worker are flagged running; every other worker is left as it was.
\<close>

theorem DownScale_removes_and_signals:
  assumes "dispatchers h d = Some dr" "workers_ok h dr"
    "1 \<le> n" "n \<le> int (length (workers dr))" "n \<le> 922337203685477"
  shows "\<exists>h' dr'. DownScale h d n = Inr h' \<and> dispatchers h' d = Some dr' \<and>
     workerCount dr' = n \<and> int (length (workers dr')) = n \<and>
     workers dr' = down_cut (nat (int (length (workers dr)) - n)) 0 (workers dr) \<and>
     subseq (workers dr') (workers dr) \<and>
     (\<forall>w\<in>set (workers dr). \<exists>wr. worker_heap h w = Some wr \<and>
        worker_heap h' w =
          Some (if w \<notin> set (workers dr') \<and> running dr \<and> w_running wr
                then wr\<lparr>kill := push () (kill wr), w_running := False\<rparr> else wr))"
proof -
  have n0: "0 \<le> n" using assms(3) by simp
  from DownScale_closed[OF assms(1,2) n0 assms(4,5)] obtain h' dr' where
    dn: "DownScale h d n = Inr h'" "dispatchers h' d = Some dr'" "workerCount dr' = n"
      "workers dr' = down_cut (nat (int (length (workers dr)) - n)) 0 (workers dr)"
      "int (length (down_cut (nat (int (length (workers dr)) - n)) 0 (workers dr))) = n"
      "worker_heap h' = stop_all (running dr)
         (set (workers dr) - set (down_cut (nat (int (length (workers dr)) - n)) 0 (workers dr)))
         (worker_heap h)"
    by blast
  have sub: "subseq (workers dr') (workers dr)" unfolding dn(4) by (rule subseq_down_cut)
  have "\<forall>w\<in>set (workers dr). \<exists>wr. worker_heap h w = Some wr \<and>
        worker_heap h' w =
          Some (if w \<notin> set (workers dr') \<and> running dr \<and> w_running wr
                then wr\<lparr>kill := push () (kill wr), w_running := False\<rparr> else wr)"
  proof
    fix w assume w: "w \<in> set (workers dr)"
    with assms(2) obtain wr where wr: "worker_heap h w = Some wr"
      by (auto simp: workers_ok_def split: option.splits)
    show "\<exists>wr. worker_heap h w = Some wr \<and>
        worker_heap h' w =
          Some (if w \<notin> set (workers dr') \<and> running dr \<and> w_running wr
                then wr\<lparr>kill := push () (kill wr), w_running := False\<rparr> else wr)"
      using w wr by (auto simp: dn(6) dn(4) stop_all_def stop_flagged_def)
  qed
  then show ?thesis using dn(1,2,3,4,5) sub by simp
qed

theorem DownScale_removes_witness:
  "dispatchers demo_run 3 = Some demo_dispatcher \<and> workers_ok demo_run demo_dispatcher \<and>
   (\<exists>h' dr'. DownScale demo_run 3 1 = Inr h' \<and> dispatchers h' 3 = Some dr' \<and>
      workerCount dr' = 1 \<and> workers dr' = [5] \<and>
      worker_heap h' 4 = Some \<lparr>dis = 3, kill = push () (make_chan 1), w_running = False\<rparr> \<and>
      worker_heap h' 5 = Some \<lparr>dis = 3, kill = make_chan 1, w_running = True\<rparr>)"
proof -
  have a: "dispatchers demo_run 3 = Some demo_dispatcher" by (rule demo_run_facts)
  have b: "workers_ok demo_run demo_dispatcher" by (rule demo_run_ok)
  have c: "1 \<le> int (length (workers demo_dispatcher))" by (simp add: demo_dispatcher_def)
  have k: "down_cut (nat (int (length (workers demo_dispatcher)) - 1)) 0 (workers demo_dispatcher) = [5]"
    by code_simp
  from DownScale_removes_and_signals[OF a b _ c, of, unfolded k]
  obtain h' dr' where
    u: "DownScale demo_run 3 1 = Inr h'" "dispatchers h' 3 = Some dr'" "workerCount dr' = 1"
      "workers dr' = [5]"
      "\<forall>w\<in>set (workers demo_dispatcher). \<exists>wr. worker_heap demo_run w = Some wr \<and>
        worker_heap h' w =
          Some (if w \<notin> set (workers dr') \<and> running demo_dispatcher \<and> w_running wr
                then wr\<lparr>kill := push () (kill wr), w_running := False\<rparr> else wr)"
    by auto
  from u(5) have "worker_heap h' 4 = Some \<lparr>dis = 3, kill = push () (make_chan 1), w_running = False\<rparr>"
    "worker_heap h' 5 = Some \<lparr>dis = 3, kill = make_chan 1, w_running = True\<rparr>"
    by (simp_all add: demo_dispatcher_def demo_run_facts u(4))
  then show ?thesis using a b u(1,2,3,4) by simp
qed

text \<open>
  The claim as written, a stop signal for each removed worker that is running, fails on a
  dispatcher that is not flagged running.  \<^verbatim>\<open>New(1)\<close>, \<^verbatim>\<open>Start\<close>, \<^verbatim>\<open>UpScale(2)\<close>,
  \<^verbatim>\<open>Stop(true)\<close>: worker 4 was started with the first context, \<^verbatim>\<open>UpScale\<close> replaced the
  context, and \<^verbatim>\<open>Stop\<close> cancelled only the second one.  \<^verbatim>\<open>DownScale(1)\<close> on the same handle
  then removes worker 4, which is flagged running and whose loop can take neither exit,
  without sending it anything.
\<close>

theorem DownScale_unsignalled_counterexample:
  "(case New empty_state 1 of Inl e \<Rightarrow> False | Inr (d, h0) \<Rightarrow>
     (case Start h0 d of Inl e \<Rightarrow> False | Inr h1 \<Rightarrow>
     (case UpScale h1 d 2 of Inl e \<Rightarrow> False | Inr h2 \<Rightarrow>
     (case Stop h2 d True of Inl e \<Rightarrow> False | Inr (d', h3) \<Rightarrow>
     (case DownScale h3 d 1 of Inl e \<Rightarrow> False | Inr h4 \<Rightarrow>
        map_option workers (dispatchers h3 d) = Some [4, 8] \<and>
        worker_heap h3 4 = Some \<lparr>dis = d, kill = make_chan 1, w_running = True\<rparr> \<and>
        map_option workers (dispatchers h4 d) = Some [8] \<and>
        worker_heap h4 4 = Some \<lparr>dis = d, kill = make_chan 1, w_running = True\<rparr> \<and>
        GWorker 4 (WithCancel 5 Background) \<in> set (goroutines h4) \<and>
        \<not> worker_can_exit h4 (GWorker 4 (WithCancel 5 Background)))))))"
  by code_simp

text \<open>
  C10.  For a pool size \<open>n\<close> below the number \<open>w\<close> of workers (\<open>0 \<le> n < w\<close>, with
  \<open>n * 10000\<close> a 64-bit integer) \<^verbatim>\<open>UpScale(n)\<close> sets the target to \<open>n\<close> all the same and
  leaves all \<open>w\<close> workers in place, so the worker set is larger than the target;
  \<^verbatim>\<open>AutoScale\<close> called next returns with exactly \<open>n\<close> workers, a subsequence of the old
  ones, and target \<open>n\<close>.
\<close>

theorem UpScale_below_sets_target_then_AutoScale_shrinks:
  assumes "dispatchers h d = Some dr" "workers_ok h dr"
    "0 \<le> n" "n < int (length (workers dr))" "n \<le> 922337203685477"
  shows "\<exists>h1 dr1. UpScale h d n = Inr h1 \<and> dispatchers h1 d = Some dr1 \<and>
     workerCount dr1 = n \<and> workers dr1 = workers dr \<and>
     workerCount dr1 < int (length (workers dr1)) \<and>
     (\<exists>h2 dr2. AutoScale h1 d = Inr h2 \<and> dispatchers h2 d = Some dr2 \<and>
        workerCount dr2 = n \<and> int (length (workers dr2)) = n \<and>
        subseq (workers dr2) (workers dr))"
  using UpScale_then_AutoScale[OF assms] assms(4) by auto

theorem UpScale_below_witness:
  "dispatchers demo_run 3 = Some demo_dispatcher \<and> workers_ok demo_run demo_dispatcher \<and>
   (1 :: int) < int (length (workers demo_dispatcher)) \<and>
   (\<exists>h1 dr1 h2 dr2. UpScale demo_run 3 1 = Inr h1 \<and> dispatchers h1 3 = Some dr1 \<and>
      workerCount dr1 = 1 \<and> workers dr1 = [4, 5] \<and>
      AutoScale h1 3 = Inr h2 \<and> dispatchers h2 3 = Some dr2 \<and>
      workerCount dr2 = 1 \<and> length (workers dr2) = 1)"
proof -
  have a: "dispatchers demo_run 3 = Some demo_dispatcher" by (rule demo_run_facts)
  have b: "workers_ok demo_run demo_dispatcher" by (rule demo_run_ok)
  have c: "(1 :: int) < int (length (workers demo_dispatcher))" by (simp add: demo_dispatcher_def)
  from UpScale_below_sets_target_then_AutoScale_shrinks[OF a b _ c]
  obtain h1 dr1 h2 dr2 where
    "UpScale demo_run 3 1 = Inr h1" "dispatchers h1 3 = Some dr1"
    "workerCount dr1 = 1" "workers dr1 = workers demo_dispatcher"
    "AutoScale h1 3 = Inr h2" "dispatchers h2 3 = Some dr2"
    "workerCount dr2 = 1" "int (length (workers dr2)) = 1"
    by auto
  then show ?thesis using a b c by (auto simp: demo_dispatcher_def)
qed

section \<open>Construction never fails, up to the largest slice of workers\<close>

text \<open>
  C7, as amended.  Write \<open>m\<close> for the count normalised to at least one.  If \<open>m\<close> is at
  most \<open>2^45 = 35184372088832\<close>, the largest slice of pointers that \<^verbatim>\<open>make\<close> accepts,
  \<^verbatim>\<open>New\<close> returns a new dispatcher with target \<open>m\<close> and exactly \<open>m\<close> workers, none of them
  started.  For the same counts \<^verbatim>\<open>Get\<close> returns the package instance: the first call
  builds it with \<^verbatim>\<open>New\<close> and stores the pointer, a later call on a well-formed instance
  returns the stored pointer again; in both cases the instance then has target \<open>m\<close> and
  exactly \<open>m\<close> workers.  The bound is the exact one for \<^verbatim>\<open>New\<close>: from \<open>2^45 + 1\<close> on
  \<^verbatim>\<open>New\<close> panics, and as long as \<open>m * 100\<close> is a 64-bit integer it does so in
  \<^verbatim>\<open>make([]*worker, maxWorker)\<close>.  Memory is taken to suffice.
\<close>

theorem New_and_Get_worker_set:
  fixes n :: int
  defines "m \<equiv> (if n < 1 then 1 else n)"
  shows "(m \<le> 35184372088832 \<longrightarrow>
          (\<exists>h' dr'. New h n = Inr (Suc (Suc (nxt h)), h') \<and>
             dispatchers h' (Suc (Suc (nxt h))) = Some dr' \<and>
             int (length (workers dr')) = m \<and> workerCount dr' = m \<and>
             (\<forall>a\<in>set (workers dr'). worker_heap h' a =
                Some \<lparr>dis = Suc (Suc (nxt h)), kill = make_chan 1, w_running = False\<rparr>))) \<and>
         (m \<le> 35184372088832 \<and>
          (once_done h \<longrightarrow> (\<exists>dr. dispatchers h (the_instance h) = Some dr \<and> workers_ok h dr)) \<longrightarrow>
          (\<exists>d h' dr'. Get h n = Inr (d, h') \<and>
             d = (if once_done h then the_instance h else Suc (Suc (nxt h))) \<and>
             the_instance h' = d \<and> once_done h' \<and> dispatchers h' d = Some dr' \<and>
             int (length (workers dr')) = m \<and> workerCount dr' = m)) \<and>
         (35184372088832 < m \<longrightarrow> (\<exists>p. New h n = Inl (Panic p))) \<and>
         (35184372088832 < m \<and> m \<le> 92233720368547758 \<longrightarrow> New h n = Inl (Panic MakeSliceLen))"
proof (intro conjI impI)
  assume "m \<le> 35184372088832"
  then have b: "(if n < 1 then 1 else n) \<le> 35184372088832" by (simp add: m_def)
  from New_props[OF b] show "\<exists>h' dr'. New h n = Inr (Suc (Suc (nxt h)), h') \<and>
             dispatchers h' (Suc (Suc (nxt h))) = Some dr' \<and>
             int (length (workers dr')) = m \<and> workerCount dr' = m \<and>
             (\<forall>a\<in>set (workers dr'). worker_heap h' a =
                Some \<lparr>dis = Suc (Suc (nxt h)), kill = make_chan 1, w_running = False\<rparr>)"
    unfolding m_def by blast
next
  assume a: "m \<le> 35184372088832 \<and>
          (once_done h \<longrightarrow> (\<exists>dr. dispatchers h (the_instance h) = Some dr \<and> workers_ok h dr))"
  then have b: "(if n < 1 then 1 else n) \<le> 35184372088832" by (simp add: m_def)
  from a have c: "once_done h \<Longrightarrow> \<exists>dr. dispatchers h (the_instance h) = Some dr \<and> workers_ok h dr"
    by blast
  from Get_closed[OF b c] show "\<exists>d h' dr'. Get h n = Inr (d, h') \<and>
             d = (if once_done h then the_instance h else Suc (Suc (nxt h))) \<and>
             the_instance h' = d \<and> once_done h' \<and> dispatchers h' d = Some dr' \<and>
             int (length (workers dr')) = m \<and> workerCount dr' = m"
    unfolding m_def by blast
next
  assume a: "35184372088832 < m"
  then have "m = n" by (simp add: m_def split: if_splits)
  with a show "\<exists>p. New h n = Inl (Panic p)" by (simp add: New_too_long)
next
  assume a: "35184372088832 < m \<and> m \<le> 92233720368547758"
  then have "m = n" by (simp add: m_def split: if_splits)
  with a show "New h n = Inl (Panic MakeSliceLen)" by (simp add: New_too_long_slice)
qed

theorem New_and_Get_witness:
  "(\<exists>h' dr'. New empty_state 0 = Inr (3, h') \<and> dispatchers h' 3 = Some dr' \<and>
       length (workers dr') = 1 \<and> workerCount dr' = 1) \<and>
   (\<exists>h' dr'. Get empty_state (- 5) = Inr (3, h') \<and> the_instance h' = 3 \<and> once_done h' \<and>
       dispatchers h' 3 = Some dr' \<and> length (workers dr') = 1 \<and> workerCount dr' = 1) \<and>
   once_done demo_instance \<and> the_instance demo_instance = 3 \<and>
   dispatchers demo_instance 3 = Some demo_dispatcher \<and>
   workers_ok demo_instance demo_dispatcher \<and>
   (\<exists>h' dr'. Get demo_instance 4 = Inr (3, h') \<and> the_instance h' = 3 \<and> once_done h' \<and>
       dispatchers h' 3 = Some dr' \<and> length (workers dr') = 4 \<and> workerCount dr' = 4) \<and>
   New empty_state 40000000000000 = Inl (Panic MakeSliceLen)"
proof -
  note t = New_and_Get_worker_set
  have e: "nxt empty_state = 1" "\<not> once_done empty_state" by (simp_all add: empty_state_def)
  have n0: "\<exists>h' dr'. New empty_state 0 = Inr (3, h') \<and> dispatchers h' 3 = Some dr' \<and>
       length (workers dr') = 1 \<and> workerCount dr' = 1"
    using t[of 0 empty_state, THEN conjunct1] by (auto simp: e numeral_3_eq_3)
  have g0: "\<exists>h' dr'. Get empty_state (- 5) = Inr (3, h') \<and> the_instance h' = 3 \<and> once_done h' \<and>
       dispatchers h' 3 = Some dr' \<and> length (workers dr') = 1 \<and> workerCount dr' = 1"
    using t[of "- 5" empty_state, THEN conjunct2, THEN conjunct1] by (auto simp: e numeral_3_eq_3)
  have i: "once_done demo_instance" "the_instance demo_instance = 3"
    "dispatchers demo_instance 3 = Some demo_dispatcher"
    by (simp_all add: demo_instance_def demo_run_facts)
  have ok: "workers_ok demo_instance demo_dispatcher"
    using demo_run_ok by (simp add: workers_ok_def demo_instance_def)
  have g1: "\<exists>h' dr'. Get demo_instance 4 = Inr (3, h') \<and> the_instance h' = 3 \<and> once_done h' \<and>
       dispatchers h' 3 = Some dr' \<and> length (workers dr') = 4 \<and> workerCount dr' = 4"
    using t[of 4 demo_instance, THEN conjunct2, THEN conjunct1] i ok by auto
  have p: "New empty_state 40000000000000 = Inl (Panic MakeSliceLen)"
    using t[of 40000000000000 empty_state, THEN conjunct2, THEN conjunct2, THEN conjunct2] by simp
  show ?thesis using n0 g0 i ok g1 p by blast
qed

text \<open>
  The claim as written, for every integer, first fails one above the largest slice:
  \<^verbatim>\<open>New(35184372088833)\<close> makes both channels and then panics in
  \<^verbatim>\<open>make([]*worker, 35184372088833)\<close> with a length out of range.
\<close>

theorem New_slice_limit_counterexample:
  "New empty_state 35184372088833 = Inl (Panic MakeSliceLen)"
proof -
  have "case New empty_state 35184372088833 of Inl e \<Rightarrow> e = Panic MakeSliceLen | Inr h \<Rightarrow> False"
    by code_simp
  then show ?thesis by (simp split: sum.splits)
qed

section \<open>Stop and the handle\<close>

text \<open>
  C1.  The code does not do what the claim says.  On a well-formed running dispatcher all
  of whose workers are started (their slice, as every slice of pointers, with at most
  \<open>2^45\<close> elements), \<^verbatim>\<open>Stop(immediate)\<close> (with nothing pending when \<open>immediate\<close> is
  false) returns a pointer \<open>d'\<close> to a new dispatcher with new queues, which is not the
  handle \<open>d\<close>; the object at \<open>d\<close> differs from before only in \<^verbatim>\<open>running = false\<close> and keeps
  its queues, its workers with their flags still set, and its cancelled context.  A
  following \<^verbatim>\<open>Start\<close> on the handle therefore finds every worker flagged running and
  starts none: no goroutine is added, the handle keeps the old queues, and the new
  dispatcher at \<open>d'\<close> stays untouched.
\<close>

theorem Stop_leaves_handle_on_old_generation:
  assumes d: "dispatchers h d = Some dr" and r: "running dr" and c: "cancel dr = Some a"
    and lt: "d < nxt h" and ok: "workers_ok h dr"
    and len: "int (length (workers dr)) \<le> 35184372088832"
    and fl: "\<forall>w\<in>set (workers dr). flagged h w"
    and w: "immediately \<or> wg dr = 0"
  shows "\<exists>d' h' dn h'' dr''. Stop h d immediately = Inr (d', h') \<and> d' \<noteq> d \<and>
     dispatchers h' d = Some (dr\<lparr>running := False\<rparr>) \<and>
     dispatchers h' d' = Some dn \<and> qin dn = nxt h \<and> qout dn = Suc (nxt h) \<and>
     goroutines h' = goroutines h \<and>
     Start h' d = Inr h'' \<and> goroutines h'' = goroutines h \<and>
     dispatchers h'' d = Some dr'' \<and> running dr'' \<and>
     qin dr'' = qin dr \<and> qout dr'' = qout dr \<and> workers dr'' = workers dr \<and>
     dispatchers h'' d' = Some dn \<and> cancelled h'' = insert a (cancelled h) \<and>
     (\<forall>w\<in>set (workers dr). worker_heap h'' w = worker_heap h w)"
proof -
  from Stop_props[OF d r c lt len w] obtain h' dn where
    s: "Stop h d immediately = Inr (Suc (Suc (nxt h)), h')"
     "dispatchers h' d = Some (dr\<lparr>running := False\<rparr>)"
     "dispatchers h' (Suc (Suc (nxt h))) = Some dn"
     "qin dn = nxt h" "qout dn = Suc (nxt h)"
     "\<forall>x. x < nxt h \<longrightarrow> worker_heap h' x = worker_heap h x"
     "goroutines h' = goroutines h" "cancelled h' = insert a (cancelled h)"
    by blast
  have ne: "Suc (Suc (nxt h)) \<noteq> d" using lt by simp
  have old: "\<forall>w\<in>set (workers dr). worker_heap h' w = worker_heap h w"
    using ok s(6) by (auto simp: workers_ok_def)
  have al: "\<forall>w\<in>set (workers (dr\<lparr>running := False\<rparr>)). worker_heap h' w \<noteq> None"
    using ok old by (auto simp: workers_ok_def split: option.splits)
  have di: "distinct (workers (dr\<lparr>running := False\<rparr>))" using ok by (simp add: workers_ok_def)
  have no: "filter (\<lambda>w. \<not> flagged h' w) (workers dr) = []"
    using fl old by (auto simp: flagged_def filter_empty_conv)
  define h'' where "h'' = h'\<lparr>nxt := Suc (nxt h'),
             dispatchers := (dispatchers h')(d \<mapsto>
                dr\<lparr>running := False, ctx := WithCancel (nxt h') Background,
                    cancel := Some (nxt h'), running := True\<rparr>),
             worker_heap := mark_started (set (workers dr)) (worker_heap h'),
             goroutines := goroutines h' @ []\<rparr>"
  have st: "Start h' d = Inr h''"
    unfolding Start_def StartWithContext_closed[OF s(2) al di] by (simp add: no h''_def)
  have "goroutines h'' = goroutines h" "dispatchers h'' (Suc (Suc (nxt h))) = Some dn"
    "dispatchers h'' d = Some (dr\<lparr>running := False, ctx := WithCancel (nxt h') Background,
                    cancel := Some (nxt h'), running := True\<rparr>)"
    using s(3,7) ne by (simp_all add: h''_def)
  moreover have "cancelled h'' = insert a (cancelled h)" using s(8) by (simp add: h''_def)
  moreover have "\<forall>w\<in>set (workers dr). worker_heap h'' w = worker_heap h w"
    using fl old by (auto simp: h''_def mark_started_def flagged_def split: option.splits)
  ultimately show ?thesis using s(1,2,3,4,5,7) ne st by simp
qed

theorem Stop_leaves_handle_witness:
  "dispatchers demo_run 3 = Some demo_dispatcher \<and> workers_ok demo_run demo_dispatcher \<and>
   list_all (flagged demo_run) (workers demo_dispatcher) \<and>
   (\<exists>d' h' h''. Stop demo_run 3 True = Inr (d', h') \<and> d' \<noteq> 3 \<and>
      dispatchers h' 3 = Some (demo_dispatcher\<lparr>running := False\<rparr>) \<and>
      Start h' 3 = Inr h'' \<and>
      goroutines h'' = [GWorker 4 (WithCancel 6 Background), GWorker 5 (WithCancel 6 Background)] \<and>
      worker_can_exit h'' (GWorker 4 (WithCancel 6 Background)) \<and>
      worker_can_exit h'' (GWorker 5 (WithCancel 6 Background)) \<and>
      map_option qin (dispatchers h'' 3) = Some 1 \<and> map_option qout (dispatchers h'' 3) = Some 2)"
proof -
  have a: "dispatchers demo_run 3 = Some demo_dispatcher" by (rule demo_run_facts)
  have b: "workers_ok demo_run demo_dispatcher" by (rule demo_run_ok)
  have f: "list_all (flagged demo_run) (workers demo_dispatcher)" by code_simp
  then have f': "\<forall>w\<in>set (workers demo_dispatcher). flagged demo_run w" by (simp add: list_all_iff)
  have r: "running demo_dispatcher" "cancel demo_dispatcher = Some 6" "3 < nxt demo_run"
    "int (length (workers demo_dispatcher)) \<le> 35184372088832"
    by (simp_all add: demo_dispatcher_def demo_run_facts)
  from Stop_leaves_handle_on_old_generation[OF a r(1,2,3) b r(4) f', of True]
  obtain d' h' h'' dr'' where
    "Stop demo_run 3 True = Inr (d', h')" "d' \<noteq> 3"
    "dispatchers h' 3 = Some (demo_dispatcher\<lparr>running := False\<rparr>)"
    "Start h' 3 = Inr h''" "goroutines h'' = goroutines demo_run"
    "dispatchers h'' 3 = Some dr''" "qin dr'' = qin demo_dispatcher" "qout dr'' = qout demo_dispatcher"
    "cancelled h'' = insert 6 (cancelled demo_run)"
    by auto
  then show ?thesis using a b f
    by (auto simp: demo_run_facts demo_dispatcher_def worker_can_exit_def simp del: One_nat_def
             split: option.splits)
qed

section \<open>The drains of the old queues\<close>

text \<open>
  C2.  The code does not do what the claim says.  \<^verbatim>\<open>ScaleBuffer\<close> counts two drains into the
  wait group and spawns them on the old queues.  The old queues are open, as every channel
  of the program is, so each drain receives the resident jobs and is then suspended in its
  \<^verbatim>\<open>range\<close> loop: it never reaches the code after the loop, and its \<^verbatim>\<open>Done\<close> never runs, so
  \<^verbatim>\<open>Wait\<close> on the running dispatcher stays suspended as well.
\<close>

theorem ScaleBuffer_drains_stay_blocked:
  assumes "dispatchers h d = Some dr" "running dr" "0 \<le> wg dr"
    "fchans h (qin dr) = Some ci" "\<not> ch_closed ci" "qin dr < nxt h"
    "fchans h (qout dr) = Some co" "\<not> ch_closed co" "qout dr < nxt h"
    "0 \<le> buffer_size sz"
  shows "\<exists>h1 h2 h3. ScaleBuffer h d sz = Inr h1 \<and>
     goroutines h1 = goroutines h @ [GDrainIn d (qin dr), GDrainOut d (qout dr)] \<and>
     drain h1 (GDrainIn d (qin dr)) = DrainBlocked (ch_buf ci) h2 \<and>
     drain h1 (GDrainOut d (qout dr)) = DrainBlocked (ch_buf co) h3 \<and>
     Wait h1 d = Inl Blocked \<and> Wait h2 d = Inl Blocked \<and> Wait h3 d = Inl Blocked"
proof -
  define h1 where "h1 = h\<lparr>fchans := (fchans h)(nxt h \<mapsto> make_chan (buffer_size sz),
                                   Suc (nxt h) \<mapsto> make_chan (buffer_size sz)),
            nxt := Suc (Suc (nxt h)),
            dispatchers := (dispatchers h)(d \<mapsto> dr\<lparr>qin := nxt h, qout := Suc (nxt h), wg := wg dr + 2\<rparr>),
            goroutines := goroutines h @ [GDrainIn d (qin dr), GDrainOut d (qout dr)]\<rparr>"
  have s: "ScaleBuffer h d sz = Inr h1"
    using ScaleBuffer_ok[OF assms(1,10)] by (simp add: h1_def)
  have ci: "fchans h1 (qin dr) = Some ci" and co: "fchans h1 (qout dr) = Some co"
    using assms(4,6,7,9) by (simp_all add: h1_def)
  have g: "goroutines h1 = goroutines h @ [GDrainIn d (qin dr), GDrainOut d (qout dr)]"
    by (simp add: h1_def)
  have w1: "Wait h1 d = Inl Blocked"
    using assms(2,3) by (simp add: Wait_def h1_def)
  have w2: "Wait (h1\<lparr>fchans := (fchans h1)(qin dr \<mapsto> ci\<lparr>ch_buf := []\<rparr>)\<rparr>) d = Inl Blocked"
    "Wait (h1\<lparr>fchans := (fchans h1)(qout dr \<mapsto> co\<lparr>ch_buf := []\<rparr>)\<rparr>) d = Inl Blocked"
    using assms(2,3) by (simp_all add: Wait_def h1_def)
  show ?thesis
    using s g drain_open(1)[OF ci assms(5), of d] drain_open(2)[OF co assms(8), of d] w1 w2
    by simp
qed

theorem ScaleBuffer_drains_witness:
  "dispatchers demo_queued 3 = Some (demo_dispatcher\<lparr>wg := 2\<rparr>) \<and>
   fchans demo_queued 1 = Some \<lparr>ch_cap = 200, ch_buf = [FnJob 8 (Job 2 (Some ''failed''))], ch_closed = False\<rparr> \<and>
   fchans demo_queued 2 = Some \<lparr>ch_cap = 200, ch_buf = [FnJob 7 (Job 1 None)], ch_closed = False\<rparr> \<and>
   (\<exists>h1 h2 h3. ScaleBuffer demo_queued 3 300 = Inr h1 \<and>
      drain h1 (GDrainIn 3 1) = DrainBlocked [FnJob 8 (Job 2 (Some ''failed''))] h2 \<and>
      drain h1 (GDrainOut 3 2) = DrainBlocked [FnJob 7 (Job 1 None)] h3 \<and>
      Wait h1 3 = Inl Blocked)"
proof -
  have a: "dispatchers demo_queued 3 = Some (demo_dispatcher\<lparr>wg := 2\<rparr>)" by (rule demo_queued_facts)
  have b: "fchans demo_queued (qin (demo_dispatcher\<lparr>wg := 2\<rparr>)) =
       Some \<lparr>ch_cap = 200, ch_buf = [FnJob 8 (Job 2 (Some ''failed''))], ch_closed = False\<rparr>"
    "fchans demo_queued (qout (demo_dispatcher\<lparr>wg := 2\<rparr>)) =
       Some \<lparr>ch_cap = 200, ch_buf = [FnJob 7 (Job 1 None)], ch_closed = False\<rparr>"
    by (simp_all add: demo_dispatcher_def demo_queued_facts del: One_nat_def)
  have c: "running (demo_dispatcher\<lparr>wg := 2\<rparr>)" "0 \<le> wg (demo_dispatcher\<lparr>wg := 2\<rparr>)"
    "qin (demo_dispatcher\<lparr>wg := 2\<rparr>) < nxt demo_queued"
    "qout (demo_dispatcher\<lparr>wg := 2\<rparr>) < nxt demo_queued"
    "0 \<le> buffer_size 300"
    by (simp_all add: demo_dispatcher_def demo_queued_facts buffer_size_def int64_def)
  from ScaleBuffer_drains_stay_blocked[OF a c(1,2) b(1) _ c(3) b(2) _ c(4,5)]
  obtain h1 h2 h3 where
    "ScaleBuffer demo_queued 3 300 = Inr h1"
    "drain h1 (GDrainIn 3 1) = DrainBlocked [FnJob 8 (Job 2 (Some ''failed''))] h2"
    "drain h1 (GDrainOut 3 2) = DrainBlocked [FnJob 7 (Job 1 None)] h3"
    "Wait h1 3 = Inl Blocked"
    by (auto simp: demo_dispatcher_def simp del: One_nat_def)
  then show ?thesis using a b by (auto simp: demo_dispatcher_def simp del: One_nat_def)
qed

text \<open>
  C6.  The code does not do what the claim says, by the same defect as C2.  After
  \<^verbatim>\<open>ScaleBuffer\<close> and both drains, the jobs that were resident in the old queues are in
  neither the overflow list \<^verbatim>\<open>d.queue\<close>, which is what it was, nor the new queues, which
  are empty, nor the old queues, which have been emptied: they are held in the local
  \<^verbatim>\<open>tmpQueue\<close> of the two suspended goroutines.  (On closed queues the statements after
  the loops would give the order of the claim: \<open>drains_on_closed_queues_order\<close>.)
\<close>

theorem drained_jobs_never_reach_overflow:
  assumes "dispatchers h d = Some dr" "qin dr \<noteq> qout dr"
    "fchans h (qin dr) = Some ci" "\<not> ch_closed ci" "qin dr < nxt h"
    "fchans h (qout dr) = Some co" "\<not> ch_closed co" "qout dr < nxt h"
    "0 \<le> buffer_size sz"
  shows "\<exists>h1 h2 h3 dr3. ScaleBuffer h d sz = Inr h1 \<and>
     drain h1 (GDrainOut d (qout dr)) = DrainBlocked (ch_buf co) h2 \<and>
     drain h2 (GDrainIn d (qin dr)) = DrainBlocked (ch_buf ci) h3 \<and>
     dispatchers h3 d = Some dr3 \<and> queue dr3 = queue dr \<and>
     fchans h3 (qin dr3) = Some (make_chan (buffer_size sz)) \<and>
     fchans h3 (qout dr3) = Some (make_chan (buffer_size sz)) \<and>
     fchans h3 (qin dr) = Some (ci\<lparr>ch_buf := []\<rparr>) \<and>
     fchans h3 (qout dr) = Some (co\<lparr>ch_buf := []\<rparr>)"
proof -
  define h1 where "h1 = h\<lparr>fchans := (fchans h)(nxt h \<mapsto> make_chan (buffer_size sz),
                                   Suc (nxt h) \<mapsto> make_chan (buffer_size sz)),
            nxt := Suc (Suc (nxt h)),
            dispatchers := (dispatchers h)(d \<mapsto> dr\<lparr>qin := nxt h, qout := Suc (nxt h), wg := wg dr + 2\<rparr>),
            goroutines := goroutines h @ [GDrainIn d (qin dr), GDrainOut d (qout dr)]\<rparr>"
  have s: "ScaleBuffer h d sz = Inr h1"
    using ScaleBuffer_ok[OF assms(1,9)] by (simp add: h1_def)
  have co: "fchans h1 (qout dr) = Some co"
    using assms(6,8) by (simp add: h1_def)
  define h2 where "h2 = h1\<lparr>fchans := (fchans h1)(qout dr \<mapsto> co\<lparr>ch_buf := []\<rparr>)\<rparr>"
  have d2: "drain h1 (GDrainOut d (qout dr)) = DrainBlocked (ch_buf co) h2"
    unfolding h2_def by (rule drain_open(2)[OF co assms(7)])
  have ci: "fchans h2 (qin dr) = Some ci"
    using assms(2,3,5) by (simp add: h2_def h1_def)
  define h3 where "h3 = h2\<lparr>fchans := (fchans h2)(qin dr \<mapsto> ci\<lparr>ch_buf := []\<rparr>)\<rparr>"
  have d3: "drain h2 (GDrainIn d (qin dr)) = DrainBlocked (ch_buf ci) h3"
    unfolding h3_def by (rule drain_open(1)[OF ci assms(4)])
  have "dispatchers h3 d = Some (dr\<lparr>qin := nxt h, qout := Suc (nxt h), wg := wg dr + 2\<rparr>)"
    "fchans h3 (nxt h) = Some (make_chan (buffer_size sz))"
    "fchans h3 (Suc (nxt h)) = Some (make_chan (buffer_size sz))"
    "fchans h3 (qin dr) = Some (ci\<lparr>ch_buf := []\<rparr>)"
    "fchans h3 (qout dr) = Some (co\<lparr>ch_buf := []\<rparr>)"
    using assms(2,5,8) by (simp_all add: h3_def h2_def h1_def)
  then show ?thesis using s d2 d3 by simp
qed

theorem drained_jobs_witness:
  "dispatchers demo_queued 3 = Some (demo_dispatcher\<lparr>wg := 2\<rparr>) \<and>
   fchans demo_queued 1 = Some \<lparr>ch_cap = 200, ch_buf = [FnJob 8 (Job 2 (Some ''failed''))], ch_closed = False\<rparr> \<and>
   fchans demo_queued 2 = Some \<lparr>ch_cap = 200, ch_buf = [FnJob 7 (Job 1 None)], ch_closed = False\<rparr> \<and>
   (\<exists>h1 h2 h3 dr3. ScaleBuffer demo_queued 3 300 = Inr h1 \<and>
      drain h1 (GDrainOut 3 2) = DrainBlocked [FnJob 7 (Job 1 None)] h2 \<and>
      drain h2 (GDrainIn 3 1) = DrainBlocked [FnJob 8 (Job 2 (Some ''failed''))] h3 \<and>
      dispatchers h3 3 = Some dr3 \<and> queue dr3 = [] \<and>
      map_option ch_buf (fchans h3 (qin dr3)) = Some [] \<and>
      map_option ch_buf (fchans h3 (qout dr3)) = Some [] \<and>
      map_option ch_buf (fchans h3 1) = Some [] \<and>
      map_option ch_buf (fchans h3 2) = Some [])"
proof -
  have a: "dispatchers demo_queued 3 = Some (demo_dispatcher\<lparr>wg := 2\<rparr>)" by (rule demo_queued_facts)
  have b: "fchans demo_queued (qin (demo_dispatcher\<lparr>wg := 2\<rparr>)) =
       Some \<lparr>ch_cap = 200, ch_buf = [FnJob 8 (Job 2 (Some ''failed''))], ch_closed = False\<rparr>"
    "fchans demo_queued (qout (demo_dispatcher\<lparr>wg := 2\<rparr>)) =
       Some \<lparr>ch_cap = 200, ch_buf = [FnJob 7 (Job 1 None)], ch_closed = False\<rparr>"
    by (simp_all add: demo_dispatcher_def demo_queued_facts del: One_nat_def)
  have c: "qin (demo_dispatcher\<lparr>wg := 2\<rparr>) \<noteq> qout (demo_dispatcher\<lparr>wg := 2\<rparr>)"
    "qin (demo_dispatcher\<lparr>wg := 2\<rparr>) < nxt demo_queued"
    "qout (demo_dispatcher\<lparr>wg := 2\<rparr>) < nxt demo_queued"
    "0 \<le> buffer_size 300"
    by (simp_all add: demo_dispatcher_def demo_queued_facts buffer_size_def int64_def)
  from drained_jobs_never_reach_overflow[OF a c(1) b(1) _ c(2) b(2) _ c(3,4)]
  obtain h1 h2 h3 dr3 where
    "ScaleBuffer demo_queued 3 300 = Inr h1"
    "drain h1 (GDrainOut 3 2) = DrainBlocked [FnJob 7 (Job 1 None)] h2"
    "drain h2 (GDrainIn 3 1) = DrainBlocked [FnJob 8 (Job 2 (Some ''failed''))] h3"
    "dispatchers h3 3 = Some dr3" "queue dr3 = []"
    "fchans h3 (qin dr3) = Some (make_chan (buffer_size 300))"
    "fchans h3 (qout dr3) = Some (make_chan (buffer_size 300))"
    "map_option ch_buf (fchans h3 1) = Some []"
    "map_option ch_buf (fchans h3 2) = Some []"
    by (auto simp: demo_dispatcher_def simp del: One_nat_def)
  then show ?thesis using a b
    by (auto simp: demo_dispatcher_def make_chan_def simp del: One_nat_def)
qed

end
